theory Spec2Isabelle
  imports Main "HOL-Library.Char_ord" "HOL-Library.List_Lexorder" "HOL-Library.Multiset"
begin

section \<open>The TypeScript compiler interface\<close>

text \<open>
  The engine reads a type-checked program through the TypeScript compiler API. Types,
  symbols, syntax nodes and signatures are objects compared by identity; they are modelled
  as handles (natural numbers) into stores held by the checker, so that a type graph may be
  cyclic and \<open>===\<close> is equality of handles.
\<close>

type_synonym tid = nat
type_synonym sid = nat
type_synonym nid = nat
type_synonym sgid = nat

text \<open>\<open>isUnion()\<close> and \<open>isIntersection()\<close> are type guards giving access to \<open>types\<close>.\<close>

datatype type_flags = Union "tid list" | Intersection "tid list" | NoSetFlags

record ts_type =
  aliasSymbol :: "sid option"
  aliasTypeArguments :: "tid list option"
  flags :: type_flags
  getProperties :: "sid list"
  getCallSignatures :: "sgid list"
  getConstructSignatures :: "sgid list"

record ts_symbol =
  getName :: string
  flagOptional :: bool
  valueDeclaration :: "nid option"
  declarations :: "nid list option"

datatype syntax_kind = ReadonlyKeyword | OtherSyntaxKind nat

record ts_node =
  canHaveModifiers :: bool
  getModifiers :: "syntax_kind list option"

datatype index_kind = IndexString | IndexNumber

record index_info =
  info_type :: tid

record type_checker =
  typeAt :: "tid \<Rightarrow> ts_type"
  symbolAt :: "sid \<Rightarrow> ts_symbol"
  nodeAt :: "nid \<Rightarrow> ts_node"
  getTypeAtLocation :: "nid \<Rightarrow> tid"
  getSymbolAtLocation :: "nid \<Rightarrow> sid option"
  getApparentType :: "tid \<Rightarrow> tid"
  getIndexInfoOfType :: "tid \<Rightarrow> index_kind \<Rightarrow> index_info option"
  getTypeOfSymbolAtLocation :: "sid \<Rightarrow> nid \<Rightarrow> tid"
  signatureToString :: "sgid \<Rightarrow> string"
  typeToString :: "tid \<Rightarrow> nid \<Rightarrow> string"

text \<open>
  The JavaScript host: \<open>String.prototype.localeCompare\<close> (the collation of the host's
  locale, returning a negative number, zero or a positive number) and \<open>path.sep\<close>.
\<close>

record host =
  localeCompare :: "string \<Rightarrow> string \<Rightarrow> int"
  path_sep :: char

section \<open>JavaScript array and string primitives\<close>

fun join :: "string \<Rightarrow> string list \<Rightarrow> string" where
  "join sep [] = []"
| "join sep [x] = x"
| "join sep (x # y # ys) = x @ sep @ join sep (y # ys)"

text \<open>
  \<open>Array.prototype.sort(compare)\<close> is stable; for a consistent comparator every stable
  sort returns the same array, here computed by insertion from the right.
\<close>

fun insort_by :: "('a \<Rightarrow> 'a \<Rightarrow> int) \<Rightarrow> 'a \<Rightarrow> 'a list \<Rightarrow> 'a list" where
  "insort_by cmp x [] = [x]"
| "insort_by cmp x (y # ys) = (if cmp x y \<le> 0 then x # y # ys else y # insort_by cmp x ys)"

definition sort_by :: "('a \<Rightarrow> 'a \<Rightarrow> int) \<Rightarrow> 'a list \<Rightarrow> 'a list" where
  "sort_by cmp xs = foldr (insort_by cmp) xs []"

definition is_space :: "char \<Rightarrow> bool" where
  "is_space c = (c \<in> set [CHR '' '', CHR 0x09, CHR 0x0A, CHR 0x0B, CHR 0x0C, CHR 0x0D])"

definition trim :: "string \<Rightarrow> string" where
  "trim s = rev (dropWhile is_space (rev (dropWhile is_space s)))"

section \<open>shape.ts\<close>

record PropertyShape =
  name :: string
  optional :: bool
  readonly :: bool
  typeKey :: string

datatype DeclarationShape =
  ObjectShape (canonical: string) (properties: "PropertyShape list")
| OtherShape (canonical: string)

text \<open>
  \<open>InternalOptions\<close> after the defaults of the parameter list have been applied: every
  caller in the repository passes \<open>depthLimit\<close> and \<open>normalizeAlias\<close> explicitly.
  \<open>depthLimit\<close> is a JavaScript number; the callers only ever subtract one from an integer.
\<close>

record InternalOptions =
  checker :: type_checker
  depthLimit :: int
  normalizeAlias :: bool
  fallbackNode :: nid

type_synonym memo = "tid \<rightharpoonup> string"

definition isReadonly :: "type_checker \<Rightarrow> sid \<Rightarrow> bool" where
  "isReadonly ck symbol =
     (case declarations (symbolAt ck symbol) of
        None \<Rightarrow> False
      | Some decls \<Rightarrow>
          list_ex (\<lambda>decl.
            let modifiers = (if canHaveModifiers (nodeAt ck decl)
                             then getModifiers (nodeAt ck decl) else None)
            in case modifiers of
                 None \<Rightarrow> False
               | Some ms \<Rightarrow> if ms = [] then False else list_ex (\<lambda>m. m = ReadonlyKeyword) ms)
            decls)"

text \<open>\<open>prop.valueDeclaration ?? prop.declarations?.[0] ?? fallbackNode\<close>\<close>

definition prop_decl :: "type_checker \<Rightarrow> sid \<Rightarrow> nid \<Rightarrow> nid" where
  "prop_decl ck prop fb =
     (case valueDeclaration (symbolAt ck prop) of
        Some d \<Rightarrow> d
      | None \<Rightarrow>
         (case declarations (symbolAt ck prop) of
            Some (d # _) \<Rightarrow> d
          | _ \<Rightarrow> fb))"

text \<open>The template \<open>`${readonly}${prop.name}${optional}:${prop.typeKey}`\<close>.\<close>

definition entry :: "PropertyShape \<Rightarrow> string" where
  "entry prop =
     (let optional_s = (if optional prop then ''?'' else '''');
          readonly_s = (if readonly prop then ''readonly '' else '''')
      in readonly_s @ name prop @ optional_s @ '':'' @ typeKey prop)"

text \<open>
  \<open>visit\<close> and \<open>canonicalizeObject\<close> are the closures of \<open>canonicalizeType\<close>; the options
  they capture and the memo they share are passed explicitly, and \<open>visit\<close> returns the
  memo as it has left it. \<open>visit_all\<close> is \<open>types.map((t) => visit(t, depth))\<close>, left to
  right. In \<open>collectProperties\<close> the callback of \<open>map\<close> never yields \<open>null\<close>, so the
  \<open>filter\<close> that follows keeps every element.
\<close>

function
  visit :: "host \<Rightarrow> InternalOptions \<Rightarrow> tid \<Rightarrow> int \<Rightarrow> memo \<Rightarrow> string \<times> memo" and
  visit_all :: "host \<Rightarrow> InternalOptions \<Rightarrow> tid list \<Rightarrow> int \<Rightarrow> memo \<Rightarrow> string list \<times> memo" and
  canonicalizeObject :: "host \<Rightarrow> InternalOptions \<Rightarrow> tid \<Rightarrow> int \<Rightarrow> string" and
  collectProperties :: "host \<Rightarrow> tid \<Rightarrow> InternalOptions \<Rightarrow> PropertyShape list" and
  canonicalizeType :: "host \<Rightarrow> tid \<Rightarrow> InternalOptions \<Rightarrow> string"
where
  "visit h opts current depth memo =
     (if depth \<le> 0 then (''#DepthLimit'', memo)
      else
        (case (case memo current of Some c \<Rightarrow> if c \<noteq> [] then Some c else None | None \<Rightarrow> None) of
           Some cached \<Rightarrow> (cached, memo)
         | None \<Rightarrow>
            (let ck = checker opts;
                 next = (if normalizeAlias opts \<and>
                            (aliasSymbol (typeAt ck current) \<noteq> None \<or>
                             aliasTypeArguments (typeAt ck current) \<noteq> None)
                         then (let apparent = getApparentType ck current
                               in if apparent \<noteq> current then apparent else current)
                         else current);
                 (result, memo') =
                   (case flags (typeAt ck next) of
                      Union types \<Rightarrow>
                        (let (parts, m) = visit_all h opts types (depth - 1) memo
                         in (''union<'' @ join ''|'' (sort parts) @ ''>'', m))
                    | Intersection types \<Rightarrow>
                        (let (parts, m) = visit_all h opts types (depth - 1) memo
                         in (''intersection<'' @ join ''&'' (sort parts) @ ''>'', m))
                    | NoSetFlags \<Rightarrow>
                        if getIndexInfoOfType ck next IndexString \<noteq> None then
                          (let stringIndex = getIndexInfoOfType ck next IndexString;
                               numberIndex = getIndexInfoOfType ck next IndexNumber;
                               stringType = map_option info_type stringIndex;
                               numberType = map_option info_type numberIndex;
                               (stringKey, m1) =
                                  (case stringType of
                                     Some t \<Rightarrow> visit h opts t (depth - 1) memo
                                   | None \<Rightarrow> ('''', memo));
                               (numberKey, m2) =
                                  (case numberType of
                                     Some t \<Rightarrow> visit h opts t (depth - 1) m1
                                   | None \<Rightarrow> ('''', m1));
                               props = canonicalizeObject h opts next (depth - 1)
                           in (''object[string:'' @ stringKey @ '';number:'' @ numberKey @ '']'' @ props,
                               m2))
                        else if getProperties (typeAt ck next) \<noteq> [] then
                          (''object'' @ canonicalizeObject h opts next (depth - 1), memo)
                        else if getCallSignatures (typeAt ck next) \<noteq> [] \<or>
                                getConstructSignatures (typeAt ck next) \<noteq> [] then
                          (let calls = sort (map (\<lambda>sig. trim (signatureToString ck sig))
                                                 (getCallSignatures (typeAt ck next)));
                               constructs = sort (map (\<lambda>sig. trim (signatureToString ck sig))
                                                      (getConstructSignatures (typeAt ck next)))
                           in (''callable<'' @ join '';'' calls @ ''|'' @ join '';'' constructs @ ''>'',
                               memo))
                        else (typeToString ck next (fallbackNode opts), memo))
             in (result, memo'(current \<mapsto> result)))))"
| "visit_all h opts [] depth memo = ([], memo)"
| "visit_all h opts (t # ts) depth memo =
     (let (k, m) = visit h opts t depth memo;
          (ks, m') = visit_all h opts ts depth m
      in (k # ks, m'))"
| "canonicalizeObject h opts objectType depth =
     (let props = collectProperties h objectType (opts\<lparr>depthLimit := depth\<rparr>);
          entries = map entry props
      in ''{'' @ join '','' entries @ ''}'')"
| "collectProperties h type opts =
     (if depthLimit opts \<le> 0 then []
      else
        (let ck = checker opts;
             props = getProperties (typeAt ck type)
         in if props = [] then []
            else
              sort_by (\<lambda>a b. localeCompare h (name a) (name b))
                (map (\<lambda>prop.
                   (let decl = prop_decl ck prop (fallbackNode opts);
                        propType = getTypeOfSymbolAtLocation ck prop decl;
                        typeKey = canonicalizeType h propType
                                    (opts\<lparr>depthLimit := depthLimit opts - 1, fallbackNode := decl\<rparr>);
                        optional = flagOptional (symbolAt ck prop);
                        readonly = isReadonly ck prop
                    in \<lparr>name = getName (symbolAt ck prop), optional = optional,
                        readonly = readonly, typeKey = typeKey\<rparr>))
                   props)))"
| "canonicalizeType h type opts = fst (visit h opts type (depthLimit opts) Map.empty)"
  by pat_completeness auto
termination
  by (relation "measures
        [case_sum
           (case_sum (\<lambda>(h, opts, t, d, m). nat d) (\<lambda>(h, opts, ts, d, m). nat d))
           (case_sum (\<lambda>(h, opts, t, d). nat d)
              (case_sum (\<lambda>(h, t, opts). nat (depthLimit opts))
                        (\<lambda>(h, t, opts). nat (depthLimit opts)))),
         case_sum
           (case_sum (\<lambda>(h, opts, t, d, m). 0) (\<lambda>(h, opts, ts, d, m). Suc (length ts)))
           (case_sum (\<lambda>(h, opts, t, d). 2)
              (case_sum (\<lambda>(h, t, opts). 1) (\<lambda>(h, t, opts). 1)))]")
     auto

declare visit.simps [simp del] canonicalizeObject.simps [simp del]
  collectProperties.simps [simp del] canonicalizeType.simps [simp del]

text \<open>
  \<open>CanonicalizeOptions\<close> as the callers write it: \<open>depthLimit\<close> and \<open>normalizeAlias\<close>
  may be left out, and \<open>describeDeclaration\<close> then takes 8 and \<open>true\<close>.
\<close>

record CanonicalizeOptions =
  opt_checker :: type_checker
  opt_depthLimit :: "int option"
  opt_normalizeAlias :: "bool option"

definition describeDeclaration :: "host \<Rightarrow> sid \<Rightarrow> CanonicalizeOptions \<Rightarrow> DeclarationShape option" where
  "describeDeclaration h symbol copts =
     (let ck = opt_checker copts;
          depthLimit = (case opt_depthLimit copts of Some d \<Rightarrow> d | None \<Rightarrow> 8);
          normalizeAlias = (case opt_normalizeAlias copts of Some b \<Rightarrow> b | None \<Rightarrow> True)
      in case (case declarations (symbolAt ck symbol) of Some (d # _) \<Rightarrow> Some d | _ \<Rightarrow> None) of
           None \<Rightarrow> None
         | Some decl \<Rightarrow>
            (let type = getTypeAtLocation ck decl;
                 canonical = canonicalizeType h type
                   \<lparr>checker = ck, depthLimit = depthLimit, normalizeAlias = normalizeAlias,
                    fallbackNode = decl\<rparr>;
                 properties = collectProperties h type
                   \<lparr>checker = ck, depthLimit = depthLimit - 1, normalizeAlias = normalizeAlias,
                    fallbackNode = decl\<rparr>
             in if properties \<noteq> [] then Some (ObjectShape canonical properties)
                else Some (OtherShape canonical)))"

definition canonicalizeDeclarationSymbol :: "host \<Rightarrow> sid \<Rightarrow> CanonicalizeOptions \<Rightarrow> string" where
  "canonicalizeDeclarationSymbol h symbol copts =
     (case describeDeclaration h symbol copts of
        Some shape \<Rightarrow> canonical shape
      | None \<Rightarrow> [])"

section \<open>declarations.ts\<close>

datatype node_kind = InterfaceDeclaration | TypeAliasDeclaration | OtherNode

text \<open>
  A syntax node: its kind, its identity, its \<open>name\<close> child (an identifier node) when it
  has one, its position, and the children \<open>forEachChild\<close> passes to the callback.
\<close>

datatype ast =
  Node (kind: node_kind) (node_id: nid) (name_node: "nid option") (pos: int)
       (children: "ast list")

record SourceFile =
  fileName :: string
  isDeclarationFile :: bool
  file_children :: "ast list"

record DeclarationInfo =
  symbol :: sid
  node :: ast
  sourceFile :: SourceFile
  shape :: DeclarationShape

record ProgramState =
  byCanonical :: "string \<rightharpoonup> DeclarationInfo list"
  byNode :: "nid \<rightharpoonup> DeclarationInfo"
  interfaceInfos :: "DeclarationInfo list"
  state_checker :: type_checker

text \<open>A program is an object too: \<open>program_id\<close> is its identity, the key of the cache.\<close>

record Program =
  program_id :: nat
  getSourceFiles :: "SourceFile list"
  getTypeChecker :: type_checker

text \<open>\<open>String.prototype.split\<close> on a one-character separator, and \<open>includes\<close>.\<close>

fun split :: "char \<Rightarrow> string \<Rightarrow> string list" where
  "split sep [] = [[]]"
| "split sep (c # cs) =
     (if c = sep then [] # split sep cs
      else (case split sep cs of
              p # ps \<Rightarrow> (c # p) # ps
            | [] \<Rightarrow> [[c]]))"

fun starts_with :: "string \<Rightarrow> string \<Rightarrow> bool" where
  "starts_with s [] = True"
| "starts_with [] (p # ps) = False"
| "starts_with (c # cs) (p # ps) = (c = p \<and> starts_with cs ps)"

fun includes_str :: "string \<Rightarrow> string \<Rightarrow> bool" where
  "includes_str [] sub = (sub = [])"
| "includes_str (c # cs) sub = (starts_with (c # cs) sub \<or> includes_str cs sub)"

definition normalizePath :: "host \<Rightarrow> string \<Rightarrow> string" where
  "normalizePath h file = join ''/'' (split (path_sep h) file)"

definition compareDeclarationInfo :: "host \<Rightarrow> DeclarationInfo \<Rightarrow> DeclarationInfo \<Rightarrow> int" where
  "compareDeclarationInfo h a b =
     (let fileA = normalizePath h (fileName (sourceFile a));
          fileB = normalizePath h (fileName (sourceFile b))
      in if fileA \<noteq> fileB then localeCompare h fileA fileB
         else pos (node a) - pos (node b))"

definition shouldSkipSourceFile :: "host \<Rightarrow> SourceFile \<Rightarrow> bool" where
  "shouldSkipSourceFile h sf =
     (if isDeclarationFile sf then True
      else includes_str (normalizePath h (fileName sf)) ''/node_modules/'')"

text \<open>
  The callback \<open>visit\<close> of \<open>getProgramState\<close>, with the three collections it fills passed
  as a \<open>ProgramState\<close>. A declaration without name, symbol or shape returns before
  \<open>node.forEachChild(visit)\<close>, so its children are not walked.
\<close>

fun
  visit_node :: "host \<Rightarrow> type_checker \<Rightarrow> SourceFile \<Rightarrow> ast \<Rightarrow> ProgramState \<Rightarrow> ProgramState" and
  visit_nodes :: "host \<Rightarrow> type_checker \<Rightarrow> SourceFile \<Rightarrow> ast list \<Rightarrow> ProgramState \<Rightarrow> ProgramState"
where
  "visit_node h ck sf (Node k i nm p cs) st =
     (if k = InterfaceDeclaration \<or> k = TypeAliasDeclaration then
        (case nm of
           None \<Rightarrow> st
         | Some name_id \<Rightarrow>
            (case getSymbolAtLocation ck name_id of
               None \<Rightarrow> st
             | Some sy \<Rightarrow>
                (case describeDeclaration h sy
                        \<lparr>opt_checker = ck, opt_depthLimit = None, opt_normalizeAlias = None\<rparr> of
                   None \<Rightarrow> st
                 | Some sh \<Rightarrow>
                    (let info = \<lparr>symbol = sy, node = Node k i nm p cs, sourceFile = sf, shape = sh\<rparr>;
                         st1 = st\<lparr>byNode := (byNode st)(i \<mapsto> info)\<rparr>;
                         st2 = (case sh of
                                  ObjectShape c ps \<Rightarrow>
                                    (case byCanonical st1 c of
                                       Some list \<Rightarrow> st1\<lparr>byCanonical := (byCanonical st1)(c \<mapsto> list @ [info])\<rparr>
                                     | None \<Rightarrow> st1\<lparr>byCanonical := (byCanonical st1)(c \<mapsto> [info])\<rparr>)
                                | OtherShape c \<Rightarrow> st1);
                         st3 = (if k = InterfaceDeclaration
                                then st2\<lparr>interfaceInfos := interfaceInfos st2 @ [info]\<rparr>
                                else st2)
                     in visit_nodes h ck sf cs st3))))
      else visit_nodes h ck sf cs st)"
| "visit_nodes h ck sf [] st = st"
| "visit_nodes h ck sf (n # ns) st = visit_nodes h ck sf ns (visit_node h ck sf n st)"

text \<open>
  \<open>programStateCache\<close> is a module-level \<open>WeakMap\<close>; it is passed in and returned.
\<close>

type_synonym program_cache = "nat \<rightharpoonup> ProgramState"

definition getProgramState :: "host \<Rightarrow> program_cache \<Rightarrow> Program \<Rightarrow> ProgramState \<times> program_cache" where
  "getProgramState h cache program =
     (case cache (program_id program) of
        Some cached \<Rightarrow> (cached, cache)
      | None \<Rightarrow>
         (let ck = getTypeChecker program;
              walked = foldl (\<lambda>st sf. if shouldSkipSourceFile h sf then st
                                        else visit_nodes h ck sf (file_children sf) st)
                         \<lparr>byCanonical = Map.empty, byNode = Map.empty, interfaceInfos = [],
                          state_checker = ck\<rparr>
                         (getSourceFiles program);
              state = walked
                \<lparr>byCanonical := (\<lambda>key. map_option (sort_by (compareDeclarationInfo h))
                                                     (byCanonical walked key)),
                 interfaceInfos := sort_by (compareDeclarationInfo h) (interfaceInfos walked)\<rparr>
          in (state, cache(program_id program \<mapsto> state))))"

definition isSubset :: "PropertyShape list \<Rightarrow> PropertyShape list \<Rightarrow> bool" where
  "isSubset base derived =
     list_all (\<lambda>prop.
        list_ex (\<lambda>candidate.
           name candidate = name prop \<and>
           optional candidate = optional prop \<and>
           readonly candidate = readonly prop \<and>
           typeKey candidate = typeKey prop) derived) base"

text \<open>The body of the loop of \<open>findBestInterfaceBase\<close>: the value of \<open>best\<close> after one candidate.\<close>

definition best_step ::
  "host \<Rightarrow> DeclarationInfo \<Rightarrow> PropertyShape list \<Rightarrow> DeclarationInfo option \<Rightarrow> DeclarationInfo
     \<Rightarrow> DeclarationInfo option" where
  "best_step h target targetProps best candidate =
     (if symbol candidate = symbol target then best
      else case shape candidate of
             OtherShape c \<Rightarrow> best
           | ObjectShape c candidateProps \<Rightarrow>
               if candidateProps = [] then best
               else if length candidateProps \<ge> length targetProps then best
               else if \<not> isSubset candidateProps targetProps then best
               else (case best of
                       None \<Rightarrow> Some candidate
                     | Some b \<Rightarrow>
                        (case shape b of
                           OtherShape bc \<Rightarrow> Some candidate
                         | ObjectShape bc bestProps \<Rightarrow>
                             if length candidateProps > length bestProps then Some candidate
                             else if length candidateProps = length bestProps \<and>
                                     compareDeclarationInfo h candidate b < 0
                                  then Some candidate
                                  else best)))"

definition findBestInterfaceBase ::
  "host \<Rightarrow> DeclarationInfo \<Rightarrow> DeclarationInfo list \<Rightarrow> DeclarationInfo option" where
  "findBestInterfaceBase h target infos =
     (case shape target of
        OtherShape c \<Rightarrow> None
      | ObjectShape c targetProps \<Rightarrow>
          if targetProps = [] then None
          else foldl (best_step h target targetProps) None infos)"

section \<open>no-duplicate-type-declaration.ts\<close>

text \<open>\<open>uniqueBySymbol\<close>, with the set \<open>seen\<close> as a list of symbols.\<close>

fun uniqueBySymbol_loop :: "sid list \<Rightarrow> DeclarationInfo list \<Rightarrow> DeclarationInfo list" where
  "uniqueBySymbol_loop seen [] = []"
| "uniqueBySymbol_loop seen (info # infos) =
     (if symbol info \<in> set seen then uniqueBySymbol_loop seen infos
      else info # uniqueBySymbol_loop (symbol info # seen) infos)"

definition uniqueBySymbol :: "DeclarationInfo list \<Rightarrow> DeclarationInfo list" where
  "uniqueBySymbol infos = uniqueBySymbol_loop [] infos"

section \<open>Notions used to state the properties\<close>

text \<open>
  \<open>prop_fact\<close> is the callback \<open>collectProperties\<close> maps over the properties of a type:
  the fact computed for one property symbol.
\<close>

definition prop_fact :: "host \<Rightarrow> InternalOptions \<Rightarrow> sid \<Rightarrow> PropertyShape" where
  "prop_fact h opts prop =
     (let ck = checker opts;
          decl = prop_decl ck prop (fallbackNode opts)
      in \<lparr>name = getName (symbolAt ck prop),
          optional = flagOptional (symbolAt ck prop),
          readonly = isReadonly ck prop,
          typeKey = canonicalizeType h (getTypeOfSymbolAtLocation ck prop decl)
                      (opts\<lparr>depthLimit := depthLimit opts - 1, fallbackNode := decl\<rparr>)\<rparr>)"

text \<open>
  \<open>localeCompare\<close> is a strict total order on a set of strings when, for strings of the
  set, it returns zero for identical strings only, reverses its sign when its arguments
  are exchanged, and is transitive. Nothing is assumed of strings outside the set.
\<close>

definition collation_order_on :: "host \<Rightarrow> string set \<Rightarrow> bool" where
  "collation_order_on h S \<longleftrightarrow>
     (\<forall>a\<in>S. \<forall>b\<in>S. (localeCompare h a b = 0) = (a = b)) \<and>
     (\<forall>a\<in>S. \<forall>b\<in>S. (localeCompare h a b < 0) = (0 < localeCompare h b a)) \<and>
     (\<forall>a\<in>S. \<forall>b\<in>S. \<forall>c\<in>S.
        localeCompare h a b < 0 \<and> localeCompare h b c < 0 \<longrightarrow> localeCompare h a c < 0)"

text \<open>
  The path of a declaration as the orders below read it: the file name with every path
  separator replaced by a slash.
\<close>

definition slash_path :: "host \<Rightarrow> string \<Rightarrow> string" where
  "slash_path h file = map (\<lambda>c. if c = path_sep h then CHR ''/'' else c) file"

definition decl_path :: "host \<Rightarrow> DeclarationInfo \<Rightarrow> string" where
  "decl_path h a = slash_path h (fileName (sourceFile a))"

definition decl_paths :: "host \<Rightarrow> DeclarationInfo list \<Rightarrow> string set" where
  "decl_paths h infos = set (map (decl_path h) infos)"

text \<open>
  Declaration order in the host's collation: path ascending by \<open>localeCompare\<close>, then
  position ascending. \<open>decl_le h a b\<close>: \<open>a\<close> is not later than \<open>b\<close>; \<open>decl_earlier h a b\<close>:
  \<open>a\<close> is strictly earlier than \<open>b\<close>.
\<close>

definition decl_le :: "host \<Rightarrow> DeclarationInfo \<Rightarrow> DeclarationInfo \<Rightarrow> bool" where
  "decl_le h a b \<longleftrightarrow>
     localeCompare h (decl_path h a) (decl_path h b) < 0 \<or>
     (decl_path h a = decl_path h b \<and> pos (node a) \<le> pos (node b))"

definition decl_earlier :: "host \<Rightarrow> DeclarationInfo \<Rightarrow> DeclarationInfo \<Rightarrow> bool" where
  "decl_earlier h a b \<longleftrightarrow>
     (if decl_path h a \<noteq> decl_path h b
      then localeCompare h (decl_path h a) (decl_path h b) < 0
      else pos (node a) < pos (node b))"

text \<open>The property list of a shape; a shape that is not an object shape has none.\<close>

fun shape_properties :: "DeclarationShape \<Rightarrow> PropertyShape list" where
  "shape_properties (ObjectShape c ps) = ps"
| "shape_properties (OtherShape c) = []"

fun is_object_shape :: "DeclarationShape \<Rightarrow> bool" where
  "is_object_shape (ObjectShape c ps) = True"
| "is_object_shape (OtherShape c) = False"

text \<open>
  A structural base of \<open>target\<close>: another symbol, an object shape, with a non-empty
  property list shorter than the target's, each of whose facts is among the target's.
\<close>

definition qualifies :: "DeclarationInfo \<Rightarrow> DeclarationInfo \<Rightarrow> bool" where
  "qualifies target candidate \<longleftrightarrow>
     symbol candidate \<noteq> symbol target \<and>
     is_object_shape (shape candidate) \<and>
     shape_properties (shape candidate) \<noteq> [] \<and>
     length (shape_properties (shape candidate)) < length (shape_properties (shape target)) \<and>
     list_all (\<lambda>p. p \<in> set (shape_properties (shape target)))
              (shape_properties (shape candidate))"

text \<open>
  The entry of the program in the cache, if there is one, was stored by \<open>getProgramState\<close>,
  which is the only writer of \<open>programStateCache\<close>.
\<close>

definition cache_built :: "host \<Rightarrow> program_cache \<Rightarrow> Program \<Rightarrow> bool" where
  "cache_built h cache program \<longleftrightarrow>
     (case cache (program_id program) of
        None \<Rightarrow> True
      | Some s \<Rightarrow> s = fst (getProgramState h Map.empty program))"

text \<open>
  The number of facts of a declaration, and the running choice of the loop of
  \<open>findBestInterfaceBase\<close> among candidates with as many facts: the first of them, replaced
  by each later one that is strictly earlier than the choice so far.
\<close>

definition property_count :: "DeclarationInfo \<Rightarrow> nat" where
  "property_count c = length (shape_properties (shape c))"

definition pick_earlier :: "host \<Rightarrow> DeclarationInfo \<Rightarrow> DeclarationInfo \<Rightarrow> DeclarationInfo" where
  "pick_earlier h best c = (if decl_earlier h c best then c else best)"

fun first_earliest :: "host \<Rightarrow> DeclarationInfo list \<Rightarrow> DeclarationInfo option" where
  "first_earliest h [] = None"
| "first_earliest h (m # ms) = Some (foldl (pick_earlier h) m ms)"

text \<open>\<open>occurs_before x y xs\<close>: an occurrence of \<open>x\<close> in \<open>xs\<close> is followed by one of \<open>y\<close>.\<close>

fun occurs_before :: "'a \<Rightarrow> 'a \<Rightarrow> 'a list \<Rightarrow> bool" where
  "occurs_before x y [] = False"
| "occurs_before x y (z # zs) = ((z = x \<and> y \<in> set zs) \<or> occurs_before x y zs)"

text \<open>
  The walk of \<open>getProgramState\<close> over the source files, before the lists are sorted, and
  the state after one declaration has been recorded, before its children are walked.
\<close>

definition walk_files :: "host \<Rightarrow> Program \<Rightarrow> ProgramState" where
  "walk_files h program =
     foldl (\<lambda>st sf. if shouldSkipSourceFile h sf then st
                     else visit_nodes h (getTypeChecker program) sf (file_children sf) st)
       \<lparr>byCanonical = Map.empty, byNode = Map.empty, interfaceInfos = [],
        state_checker = getTypeChecker program\<rparr>
       (getSourceFiles program)"

definition record_declaration ::
  "node_kind \<Rightarrow> nid \<Rightarrow> DeclarationInfo \<Rightarrow> ProgramState \<Rightarrow> ProgramState" where
  "record_declaration k i info st =
     (let st1 = st\<lparr>byNode := (byNode st)(i \<mapsto> info)\<rparr>;
          st2 = (case shape info of
                   ObjectShape c ps \<Rightarrow>
                     (case byCanonical st1 c of
                        Some list \<Rightarrow> st1\<lparr>byCanonical := (byCanonical st1)(c \<mapsto> list @ [info])\<rparr>
                      | None \<Rightarrow> st1\<lparr>byCanonical := (byCanonical st1)(c \<mapsto> [info])\<rparr>)
                 | OtherShape c \<Rightarrow> st1)
      in if k = InterfaceDeclaration
         then st2\<lparr>interfaceInfos := interfaceInfos st2 @ [info]\<rparr>
         else st2)"

text \<open>
  A plain object type: no alias information, neither union nor intersection, no string
  index signature, at least one own property.
\<close>

definition plain_object :: "type_checker \<Rightarrow> tid \<Rightarrow> bool" where
  "plain_object ck t \<longleftrightarrow>
     aliasSymbol (typeAt ck t) = None \<and> aliasTypeArguments (typeAt ck t) = None \<and>
     flags (typeAt ck t) = NoSetFlags \<and>
     getIndexInfoOfType ck t IndexString = None \<and>
     getProperties (typeAt ck t) \<noteq> []"

text \<open>The key of an object type whose only property is \<open>p\<close>, given the key \<open>k\<close> of its type.\<close>

definition self_key :: "type_checker \<Rightarrow> sid \<Rightarrow> string \<Rightarrow> string" where
  "self_key ck p k =
     ''object{'' @
     entry \<lparr>name = getName (symbolAt ck p), optional = flagOptional (symbolAt ck p),
            readonly = isReadonly ck p, typeKey = k\<rparr> @ ''}''"

text \<open>
  The two steps of \<open>visit\<close> after a memo miss, named: \<open>next_type\<close> is the value of \<open>next\<close>
  (alias resolution), and \<open>classify\<close> is the chain of branches that computes \<open>result\<close>,
  returned with the memo as the nested visits have left it.
\<close>

definition next_type :: "InternalOptions \<Rightarrow> tid \<Rightarrow> tid" where
  "next_type opts current =
     (if normalizeAlias opts \<and>
         (aliasSymbol (typeAt (checker opts) current) \<noteq> None \<or>
          aliasTypeArguments (typeAt (checker opts) current) \<noteq> None)
      then (let apparent = getApparentType (checker opts) current
            in if apparent \<noteq> current then apparent else current)
      else current)"

definition classify :: "host \<Rightarrow> InternalOptions \<Rightarrow> tid \<Rightarrow> int \<Rightarrow> memo \<Rightarrow> string \<times> memo" where
  "classify h opts next depth memo =
     (let ck = checker opts
      in case flags (typeAt ck next) of
           Union types \<Rightarrow>
             (let (parts, m) = visit_all h opts types (depth - 1) memo
              in (''union<'' @ join ''|'' (sort parts) @ ''>'', m))
         | Intersection types \<Rightarrow>
             (let (parts, m) = visit_all h opts types (depth - 1) memo
              in (''intersection<'' @ join ''&'' (sort parts) @ ''>'', m))
         | NoSetFlags \<Rightarrow>
             if getIndexInfoOfType ck next IndexString \<noteq> None then
               (let stringIndex = getIndexInfoOfType ck next IndexString;
                    numberIndex = getIndexInfoOfType ck next IndexNumber;
                    stringType = map_option info_type stringIndex;
                    numberType = map_option info_type numberIndex;
                    (stringKey, m1) =
                       (case stringType of
                          Some t \<Rightarrow> visit h opts t (depth - 1) memo
                        | None \<Rightarrow> ('''', memo));
                    (numberKey, m2) =
                       (case numberType of
                          Some t \<Rightarrow> visit h opts t (depth - 1) m1
                        | None \<Rightarrow> ('''', m1));
                    props = canonicalizeObject h opts next (depth - 1)
                in (''object[string:'' @ stringKey @ '';number:'' @ numberKey @ '']'' @ props,
                    m2))
             else if getProperties (typeAt ck next) \<noteq> [] then
               (''object'' @ canonicalizeObject h opts next (depth - 1), memo)
             else if getCallSignatures (typeAt ck next) \<noteq> [] \<or>
                     getConstructSignatures (typeAt ck next) \<noteq> [] then
               (let calls = sort (map (\<lambda>sig. trim (signatureToString ck sig))
                                      (getCallSignatures (typeAt ck next)));
                    constructs = sort (map (\<lambda>sig. trim (signatureToString ck sig))
                                           (getConstructSignatures (typeAt ck next)))
                in (''callable<'' @ join '';'' calls @ ''|'' @ join '';'' constructs @ ''>'',
                    memo))
             else (typeToString ck next (fallbackNode opts), memo))"

text \<open>
  The names of the own properties of a type, and two types that differ at most in the
  order in which their properties are declared: the same flags and index signatures, at
  least one property, distinct property names, and the same facts up to order (computed at
  the depth limit \<open>canonicalizeObject\<close> hands to \<open>collectProperties\<close>).
\<close>

definition property_names :: "type_checker \<Rightarrow> tid \<Rightarrow> string set" where
  "property_names ck t = set (map (\<lambda>p. getName (symbolAt ck p)) (getProperties (typeAt ck t)))"

definition same_but_property_order :: "host \<Rightarrow> InternalOptions \<Rightarrow> tid \<Rightarrow> tid \<Rightarrow> bool" where
  "same_but_property_order h opts n n' \<longleftrightarrow>
     (let ck = checker opts; inner = opts\<lparr>depthLimit := depthLimit opts - 1\<rparr>
      in flags (typeAt ck n') = flags (typeAt ck n) \<and>
         getIndexInfoOfType ck n' IndexString = getIndexInfoOfType ck n IndexString \<and>
         getIndexInfoOfType ck n' IndexNumber = getIndexInfoOfType ck n IndexNumber \<and>
         getProperties (typeAt ck n) \<noteq> [] \<and>
         distinct (map (\<lambda>p. getName (symbolAt ck p)) (getProperties (typeAt ck n))) \<and>
         mset (map (prop_fact h inner) (getProperties (typeAt ck n'))) =
         mset (map (prop_fact h inner) (getProperties (typeAt ck n))))"

text \<open>
  Every key in the memo is the key a visit of that type returned: a visit at a positive
  depth that found no key for the type on entry and ran to its end.
\<close>

definition completed_keys :: "host \<Rightarrow> InternalOptions \<Rightarrow> memo \<Rightarrow> bool" where
  "completed_keys h opts m \<longleftrightarrow>
     (\<forall>t k. m t = Some k \<longrightarrow>
        (\<exists>d m0. 0 < d \<and> (m0 t = None \<or> m0 t = Some []) \<and> k = fst (visit h opts t d m0)))"

section \<open>A sample program\<close>

text \<open>
  Two hosts: one whose collation is the order of code units, and one that orders letters
  without regard to case and puts the lower-case letter first among equals, as the
  collations of ECMA-402 locales do (\<open>"a".localeCompare("B")\<close> is negative there).
\<close>

definition code_unit_compare :: "string \<Rightarrow> string \<Rightarrow> int" where
  "code_unit_compare a b = (if a < b then - 1 else if a = b then 0 else 1)"

definition lower_case :: "char \<Rightarrow> char" where
  "lower_case c =
     (if CHR ''A'' \<le> c \<and> c \<le> CHR ''Z'' then char_of (of_char c + (32 :: nat)) else c)"

definition letter_compare :: "string \<Rightarrow> string \<Rightarrow> int" where
  "letter_compare a b =
     (if map lower_case a < map lower_case b then - 1
      else if map lower_case b < map lower_case a then 1
      else if a = b then 0
      else if b < a then - 1 else 1)"

definition sample_host :: host where
  "sample_host = \<lparr>localeCompare = code_unit_compare, path_sep = CHR ''/''\<rparr>"

definition letter_host :: host where
  "letter_host = \<lparr>localeCompare = letter_compare, path_sep = CHR ''/''\<rparr>"

text \<open>
  The types of the sample program:
  \<^item> 0: \<open>interface ListNode { next: ListNode }\<close>;
  \<^item> 1: \<open>interface Rec { [k: string]: Rec }\<close>;
  \<^item> 2 and 3: the unions \<open>A | B\<close> and \<open>B | A\<close> of 4: \<open>{ [k: string]: B }\<close> and
    5: \<open>{ [k: string]: string }\<close>;
  \<^item> 6: \<open>string\<close>, 7: \<open>number\<close>;
  \<^item> 8: \<open>interface NumMap { [i: number]: string }\<close>;
  \<^item> 9: \<open>interface IdOnly { id: number }\<close> and 16: \<open>type IdAlias = { id: number }\<close>;
  \<^item> 10, 14, 15: three declarations of \<open>{ id: number; name: string }\<close>;
  \<^item> 11: \<open>interface Empty {}\<close>;
  \<^item> 12: \<open>{ B: string; a: number }\<close> and 13: \<open>{ a: number; B: string }\<close>;
  \<^item> 30 to 35: a chain of six types \<open>{ [k: string]: ... }\<close>, each the value type of the one
    before, the last with value type \<open>string\<close>; 36: \<open>{ [k: string]: T30 }\<close>; 37 and 38: the
    unions \<open>T36 | T30\<close> and \<open>T30 | T36\<close>;
  \<^item> 40: \<open>interface T { [k: string]: U; [i: number]: T }\<close> and
    41: \<open>interface U { [k: string]: T }\<close>.
\<close>

definition plain_type :: "sid list \<Rightarrow> ts_type" where
  "plain_type ps =
     \<lparr>aliasSymbol = None, aliasTypeArguments = None, flags = NoSetFlags,
      getProperties = ps, getCallSignatures = [], getConstructSignatures = []\<rparr>"

definition sample_types :: "tid \<Rightarrow> ts_type" where
  "sample_types t =
     (if t = 0 then plain_type [0]
      else if t = 2 then (plain_type [])\<lparr>flags := Union [4, 5]\<rparr>
      else if t = 3 then (plain_type [])\<lparr>flags := Union [5, 4]\<rparr>
      else if t = 9 then plain_type [1]
      else if t = 16 then (plain_type [12])\<lparr>aliasSymbol := Some 25\<rparr>
      else if t = 10 then plain_type [2, 3]
      else if t = 12 then plain_type [4, 5]
      else if t = 13 then plain_type [6, 7]
      else if t = 14 then plain_type [8, 9]
      else if t = 15 then plain_type [10, 11]
      else if t = 37 then (plain_type [])\<lparr>flags := Union [36, 30]\<rparr>
      else if t = 38 then (plain_type [])\<lparr>flags := Union [30, 36]\<rparr>
      else plain_type [])"

text \<open>
  Symbols 0 to 12 are the properties, declared at nodes 50 to 62; symbols 20 to 25 are the
  declarations \<open>X\<close>, \<open>Y\<close>, \<open>Z\<close>, \<open>Empty\<close>, \<open>IdOnly\<close> and the alias \<open>IdAlias\<close>, declared
  at nodes 300 to 305 and named by the identifiers 400 to 405.
\<close>

definition sample_symbols :: "sid \<Rightarrow> ts_symbol" where
  "sample_symbols s =
     (if s < 20 then
        \<lparr>getName = (if s = 0 then ''next''
                     else if s \<in> set [1, 2, 8, 10, 12] then ''id''
                     else if s \<in> set [3, 9, 11] then ''name''
                     else if s \<in> set [4, 7] then ''B''
                     else ''a''),
         flagOptional = False, valueDeclaration = Some (50 + s), declarations = Some [50 + s]\<rparr>
      else
        \<lparr>getName = (if s = 20 then ''X'' else if s = 21 then ''Y'' else if s = 22 then ''Z''
                     else if s = 23 then ''Empty'' else if s = 24 then ''IdOnly''
                     else ''IdAlias''),
         flagOptional = False, valueDeclaration = None, declarations = Some [280 + s]\<rparr>)"

definition sample_checker :: type_checker where
  "sample_checker =
     \<lparr>typeAt = sample_types,
      symbolAt = sample_symbols,
      nodeAt = (\<lambda>n. \<lparr>canHaveModifiers = True, getModifiers = None\<rparr>),
      getTypeAtLocation = (\<lambda>n. if n = 300 then 10 else if n = 301 then 14 else if n = 302 then 15
                                 else if n = 303 then 11 else if n = 304 then 9
                                 else if n = 305 then 16 else 0),
      getSymbolAtLocation = (\<lambda>n. if 400 \<le> n \<and> n \<le> 405 then Some (n - 380) else None),
      getApparentType = (\<lambda>t. t),
      getIndexInfoOfType =
        (\<lambda>t k. if k = IndexString \<and> t = 1 then Some \<lparr>info_type = 1\<rparr>
               else if k = IndexString \<and> t = 4 then Some \<lparr>info_type = 5\<rparr>
               else if k = IndexString \<and> t = 5 then Some \<lparr>info_type = 6\<rparr>
               else if k = IndexNumber \<and> t = 8 then Some \<lparr>info_type = 6\<rparr>
               else if k = IndexString \<and> 30 \<le> t \<and> t < 35 then Some \<lparr>info_type = t + 1\<rparr>
               else if k = IndexString \<and> t = 35 then Some \<lparr>info_type = 6\<rparr>
               else if k = IndexString \<and> t = 36 then Some \<lparr>info_type = 30\<rparr>
               else if k = IndexString \<and> t = 40 then Some \<lparr>info_type = 41\<rparr>
               else if k = IndexNumber \<and> t = 40 then Some \<lparr>info_type = 40\<rparr>
               else if k = IndexString \<and> t = 41 then Some \<lparr>info_type = 40\<rparr>
               else None),
      getTypeOfSymbolAtLocation =
        (\<lambda>s n. if s = 0 then 0 else if s \<in> set [1, 2, 5, 6, 8, 10, 12] then 7 else 6),
      signatureToString = (\<lambda>s. []),
      typeToString =
        (\<lambda>t n. if t = 6 then ''string'' else if t = 7 then ''number''
               else if t = 8 then ''NumMap'' else if t = 11 then ''Empty'' else ''unknown'')\<rparr>"

definition sample_options :: "int \<Rightarrow> InternalOptions" where
  "sample_options d =
     \<lparr>checker = sample_checker, depthLimit = d, normalizeAlias = True, fallbackNode = 0\<rparr>"

text \<open>
  \<open>File2\<close> declares \<open>Y\<close> at position 5 and the alias \<open>IdAlias\<close> at 60; \<open>File1\<close> declares
  \<open>X\<close> at 10, \<open>Z\<close> at 50, \<open>Empty\<close> at 80 and \<open>IdOnly\<close> at 90. The program lists \<open>File2\<close>
  first.
\<close>

definition sample_file2 :: SourceFile where
  "sample_file2 =
     \<lparr>fileName = ''File2'', isDeclarationFile = False,
      file_children =
        [Node InterfaceDeclaration 301 (Some 401) 5 [Node OtherNode 501 None 7 []],
         Node TypeAliasDeclaration 305 (Some 405) 60 []]\<rparr>"

definition sample_file1 :: SourceFile where
  "sample_file1 =
     \<lparr>fileName = ''File1'', isDeclarationFile = False,
      file_children =
        [Node InterfaceDeclaration 300 (Some 400) 10 [],
         Node InterfaceDeclaration 302 (Some 402) 50 [],
         Node InterfaceDeclaration 303 (Some 403) 80 [],
         Node InterfaceDeclaration 304 (Some 404) 90 []]\<rparr>"

definition sample_program :: Program where
  "sample_program =
     \<lparr>program_id = 0, getSourceFiles = [sample_file2, sample_file1],
      getTypeChecker = sample_checker\<rparr>"

text \<open>
  Declarations for the base finder: the target \<open>D\<close> with three facts, and candidates with
  one fact, two facts (in \<open>src/b.ts\<close>, \<open>src/B.ts\<close> and \<open>src/a.ts\<close>), a fact the target
  lacks, no object shape, and the target itself.
\<close>

definition fact :: "string \<Rightarrow> string \<Rightarrow> PropertyShape" where
  "fact n k = \<lparr>name = n, optional = False, readonly = False, typeKey = k\<rparr>"

definition decl_info :: "sid \<Rightarrow> string \<Rightarrow> int \<Rightarrow> DeclarationShape \<Rightarrow> DeclarationInfo" where
  "decl_info s file p sh =
     \<lparr>symbol = s, node = Node InterfaceDeclaration s None p [],
      sourceFile = \<lparr>fileName = file, isDeclarationFile = False, file_children = []\<rparr>,
      shape = sh\<rparr>"

definition base_target :: DeclarationInfo where
  "base_target = decl_info 1 ''src/d.ts'' 100
     (ObjectShape ''object{a:string,b:number,c:boolean}''
        [fact ''a'' ''string'', fact ''b'' ''number'', fact ''c'' ''boolean''])"

definition base_one :: DeclarationInfo where
  "base_one = decl_info 2 ''src/b.ts'' 40 (ObjectShape ''object{a:string}'' [fact ''a'' ''string''])"

definition base_two_late :: DeclarationInfo where
  "base_two_late = decl_info 3 ''src/b.ts'' 7
     (ObjectShape ''object{a:string,b:number}'' [fact ''a'' ''string'', fact ''b'' ''number''])"

definition base_two_early :: DeclarationInfo where
  "base_two_early = decl_info 4 ''src/a.ts'' 90
     (ObjectShape ''object{a:string,c:boolean}'' [fact ''a'' ''string'', fact ''c'' ''boolean''])"

definition base_two_upper :: DeclarationInfo where
  "base_two_upper = decl_info 7 ''src/B.ts'' 7
     (ObjectShape ''object{a:string,b:number}'' [fact ''a'' ''string'', fact ''b'' ''number''])"

definition base_foreign :: DeclarationInfo where
  "base_foreign = decl_info 5 ''src/a.ts'' 10
     (ObjectShape ''object{a:string,z:number}'' [fact ''a'' ''string'', fact ''z'' ''number''])"

definition base_other :: DeclarationInfo where
  "base_other = decl_info 6 ''src/a.ts'' 20 (OtherShape ''string'')"

definition base_candidates :: "DeclarationInfo list" where
  "base_candidates =
     [base_foreign, base_other, base_one, base_two_late, base_target, base_two_early]"

definition base_case_candidates :: "DeclarationInfo list" where
  "base_case_candidates =
     [base_foreign, base_other, base_one, base_two_upper, base_target, base_two_early,
      base_two_late]"

text \<open>
  A program of two files, \<open>src/B.ts\<close> and \<open>src/a.ts\<close>, each declaring one of the
  interfaces \<open>X\<close> and \<open>Z\<close> of the same shape at position 10.
\<close>

definition case_program :: Program where
  "case_program =
     \<lparr>program_id = 1,
      getSourceFiles =
        [\<lparr>fileName = ''src/B.ts'', isDeclarationFile = False,
          file_children = [Node InterfaceDeclaration 300 (Some 400) 10 []]\<rparr>,
         \<lparr>fileName = ''src/a.ts'', isDeclarationFile = False,
          file_children = [Node InterfaceDeclaration 302 (Some 402) 10 []]\<rparr>],
      getTypeChecker = sample_checker\<rparr>"

section \<open>Sorting with a comparator\<close>

lemma set_insort_by: "set (insort_by cmp x xs) = insert x (set xs)"
  by (induction xs) auto

lemma mset_insort_by: "mset (insort_by cmp x xs) = add_mset x (mset xs)"
  by (induction xs) auto

lemma mset_sort_by: "mset (sort_by cmp xs) = mset xs"
  by (induction xs) (simp_all add: sort_by_def mset_insort_by)

lemma set_sort_by: "set (sort_by cmp xs) = set xs"
  by (metis mset_sort_by set_mset_mset)

lemma sort_by_Nil: "sort_by cmp [] = []"
  by (simp add: sort_by_def)

lemma sort_by_Cons: "sort_by cmp (x # xs) = insort_by cmp x (sort_by cmp xs)"
  by (simp add: sort_by_def)

text \<open>The comparator need only be total and transitive on the elements that are sorted.\<close>

lemma sorted_insort_by_on:
  assumes total: "\<And>a b. a \<in> A \<Longrightarrow> b \<in> A \<Longrightarrow> cmp a b \<le> 0 \<or> cmp b a \<le> 0"
    and trans: "\<And>a b c. a \<in> A \<Longrightarrow> b \<in> A \<Longrightarrow> c \<in> A \<Longrightarrow>
                  cmp a b \<le> 0 \<Longrightarrow> cmp b c \<le> 0 \<Longrightarrow> cmp a c \<le> 0"
    and x: "x \<in> A"
  shows "set xs \<subseteq> A \<Longrightarrow> sorted_wrt (\<lambda>a b. cmp a b \<le> 0) xs \<Longrightarrow>
         sorted_wrt (\<lambda>a b. cmp a b \<le> 0) (insort_by cmp x xs)"
proof (induction xs)
  case Nil
  then show ?case by simp
next
  case (Cons y ys)
  have y: "y \<in> A" and ys: "set ys \<subseteq> A"
    using Cons.prems(1) by auto
  show ?case
  proof (cases "cmp x y \<le> 0")
    case True
    have "\<forall>z\<in>set ys. cmp x z \<le> 0"
    proof
      fix z
      assume z: "z \<in> set ys"
      then have "cmp y z \<le> 0" using Cons.prems(2) by simp
      with True show "cmp x z \<le> 0"
        using trans[of x y z] x y ys z by blast
    qed
    with True Cons.prems(2) show ?thesis by simp
  next
    case False
    then have "cmp y x \<le> 0" using total[of x y] x y by blast
    moreover have "sorted_wrt (\<lambda>a b. cmp a b \<le> 0) (insort_by cmp x ys)"
      using Cons.IH[OF ys] Cons.prems(2) by simp
    ultimately show ?thesis
      using False Cons.prems(2) by (auto simp: set_insort_by)
  qed
qed

lemma sorted_sort_by_on:
  assumes total: "\<And>a b. a \<in> A \<Longrightarrow> b \<in> A \<Longrightarrow> cmp a b \<le> 0 \<or> cmp b a \<le> 0"
    and trans: "\<And>a b c. a \<in> A \<Longrightarrow> b \<in> A \<Longrightarrow> c \<in> A \<Longrightarrow>
                  cmp a b \<le> 0 \<Longrightarrow> cmp b c \<le> 0 \<Longrightarrow> cmp a c \<le> 0"
  shows "set xs \<subseteq> A \<Longrightarrow> sorted_wrt (\<lambda>a b. cmp a b \<le> 0) (sort_by cmp xs)"
proof (induction xs)
  case Nil
  show ?case by (simp add: sort_by_Nil)
next
  case (Cons x xs)
  have x: "x \<in> A" and xs: "set xs \<subseteq> A"
    using Cons.prems by auto
  have sub: "set (sort_by cmp xs) \<subseteq> A"
    using xs by (simp add: set_sort_by)
  show ?case
    unfolding sort_by_Cons
    by (rule sorted_insort_by_on[of A cmp x, OF total trans x sub Cons.IH[OF xs]])
qed

text \<open>Two sorted lists of the same distinct elements are equal when no two elements tie.\<close>

lemma sorted_wrt_unique:
  assumes anti: "\<And>a b. a \<in> set xs \<Longrightarrow> b \<in> set xs \<Longrightarrow> R a b \<Longrightarrow> R b a \<Longrightarrow> a = b"
  shows "sorted_wrt R xs \<Longrightarrow> sorted_wrt R ys \<Longrightarrow> distinct xs \<Longrightarrow> distinct ys \<Longrightarrow>
         set xs = set ys \<Longrightarrow> xs = ys"
  using anti
proof (induction xs arbitrary: ys)
  case Nil
  then show ?case by simp
next
  case (Cons x xs)
  from Cons.prems(5) obtain y ys' where ys: "ys = y # ys'"
    by (cases ys) auto
  have head: "x = y"
  proof (rule ccontr)
    assume ne: "x \<noteq> y"
    then have "x \<in> set ys'" and "y \<in> set xs"
      using Cons.prems(5) ys by auto
    then have "R y x" and "R x y"
      using Cons.prems(1,2) ys by auto
    moreover have "x \<in> set (x # xs)" and "y \<in> set (x # xs)"
      using \<open>y \<in> set xs\<close> by auto
    ultimately show False
      using Cons.prems(6) ne by blast
  qed
  have "set xs = set ys'"
    using Cons.prems(3,4,5) ys head by auto
  moreover have "\<And>a b. a \<in> set xs \<Longrightarrow> b \<in> set xs \<Longrightarrow> R a b \<Longrightarrow> R b a \<Longrightarrow> a = b"
    using Cons.prems(6) by auto
  ultimately have "xs = ys'"
    using Cons.IH[of ys'] Cons.prems(1,2,3,4) ys by auto
  with head ys show ?case by simp
qed

text \<open>
  The sort is stable, whatever the comparator: an element stays before a later one that
  the comparator does not put before it.
\<close>

lemma occurs_before_insort:
  "occurs_before x y xs \<Longrightarrow> occurs_before x y (insort_by cmp z xs)"
proof (induction xs)
  case Nil
  then show ?case by simp
next
  case (Cons w ws)
  then show ?case
    by (auto simp: set_insort_by)
qed

lemma occurs_before_insort_new:
  "y \<in> set xs \<Longrightarrow> cmp x y \<le> 0 \<Longrightarrow> occurs_before x y (insort_by cmp x xs)"
proof (induction xs)
  case Nil
  then show ?case by simp
next
  case (Cons w ws)
  then show ?case by auto
qed

lemma sort_by_stable:
  "occurs_before x y xs \<Longrightarrow> cmp x y \<le> 0 \<Longrightarrow> occurs_before x y (sort_by cmp xs)"
proof (induction xs)
  case Nil
  then show ?case by simp
next
  case (Cons z zs)
  from Cons.prems(1) consider (head) "z = x" "y \<in> set zs" | (tail) "occurs_before x y zs"
    by auto
  then show ?case
  proof cases
    case head
    then have "y \<in> set (sort_by cmp zs)" by (simp add: set_sort_by)
    then have "occurs_before x y (insort_by cmp x (sort_by cmp zs))"
      using Cons.prems(2) by (rule occurs_before_insort_new)
    with head show ?thesis
      by (simp add: sort_by_Cons)
  next
    case tail
    from Cons.IH[OF tail Cons.prems(2)] show ?thesis
      unfolding sort_by_Cons by (rule occurs_before_insort)
  qed
qed

section \<open>Collations and declaration order\<close>

lemma collation_order_on_sample_host: "collation_order_on sample_host S"
  unfolding collation_order_on_def sample_host_def code_unit_compare_def
  by (auto simp: not_less dest: less_trans)

lemma letter_compare_neg:
  "letter_compare a b < 0 \<longleftrightarrow>
     map lower_case a < map lower_case b \<or> (map lower_case a = map lower_case b \<and> b < a)"
  unfolding letter_compare_def by (auto simp: not_less)

lemma letter_compare_pos:
  "0 < letter_compare a b \<longleftrightarrow>
     map lower_case b < map lower_case a \<or> (map lower_case a = map lower_case b \<and> a < b)"
  unfolding letter_compare_def by (auto simp: not_less)

lemma letter_compare_zero: "letter_compare a b = 0 \<longleftrightarrow> a = b"
  unfolding letter_compare_def by auto

lemma collation_order_on_letter_host: "collation_order_on letter_host S"
  unfolding collation_order_on_def letter_host_def
  by (auto simp: letter_compare_zero letter_compare_neg letter_compare_pos dest: less_trans)

lemma collation_le_total:
  assumes "collation_order_on h S" and "a \<in> S" and "b \<in> S"
  shows "localeCompare h a b \<le> 0 \<or> localeCompare h b a \<le> 0"
proof (cases "localeCompare h a b \<le> 0")
  case True
  then show ?thesis by simp
next
  case False
  then have "0 < localeCompare h a b" by simp
  then have "localeCompare h b a < 0"
    using assms unfolding collation_order_on_def by blast
  then show ?thesis by simp
qed

lemma collation_le_trans:
  assumes ord: "collation_order_on h S" and S: "a \<in> S" "b \<in> S" "c \<in> S"
    and ab: "localeCompare h a b \<le> 0" and bc: "localeCompare h b c \<le> 0"
  shows "localeCompare h a c \<le> 0"
proof (cases "a = b \<or> b = c")
  case True
  then show ?thesis using ab bc by auto
next
  case False
  then have "localeCompare h a b \<noteq> 0" and "localeCompare h b c \<noteq> 0"
    using ord S unfolding collation_order_on_def by blast+
  then have "localeCompare h a b < 0" and "localeCompare h b c < 0"
    using ab bc by simp_all
  then have "localeCompare h a c < 0"
    using ord S unfolding collation_order_on_def by blast
  then show ?thesis by simp
qed

lemma collation_le_antisym:
  assumes ord: "collation_order_on h S" and S: "a \<in> S" "b \<in> S"
    and ab: "localeCompare h a b \<le> 0" and ba: "localeCompare h b a \<le> 0"
  shows "a = b"
proof -
  have "(localeCompare h a b < 0) = (0 < localeCompare h b a)"
    using ord S unfolding collation_order_on_def by blast
  then have "\<not> localeCompare h a b < 0" using ba by simp
  then have "localeCompare h a b = 0" using ab by simp
  then show ?thesis using ord S unfolding collation_order_on_def by blast
qed

text \<open>\<open>normalizePath\<close> replaces every separator by a slash.\<close>

lemma split_not_Nil: "split sep s \<noteq> []"
  by (induction s) (auto split: list.split)

lemma join_slash_Cons: "rest \<noteq> [] \<Longrightarrow> join ''/'' (p # rest) = p @ CHR ''/'' # join ''/'' rest"
  by (cases rest) simp_all

lemma normalizePath_slash_path: "normalizePath h file = slash_path h file"
proof -
  have "join ''/'' (split sep s) = map (\<lambda>c. if c = sep then CHR ''/'' else c) s" for sep s
  proof (induction s)
    case Nil
    then show ?case by simp
  next
    case (Cons c cs)
    show ?case
    proof (cases "c = sep")
      case True
      then show ?thesis
        using Cons.IH by (simp add: join_slash_Cons split_not_Nil)
    next
      case False
      obtain p ps where sp: "split sep cs = p # ps"
        using split_not_Nil[of sep cs] by (cases "split sep cs") auto
      have "join ''/'' ((c # p) # ps) = c # join ''/'' (p # ps)"
        by (cases ps) simp_all
      then show ?thesis
        using False Cons.IH sp by simp
    qed
  qed
  then show ?thesis
    by (simp add: normalizePath_def slash_path_def)
qed

lemma compare_less_iff: "compareDeclarationInfo h a b < 0 \<longleftrightarrow> decl_earlier h a b"
  by (simp add: compareDeclarationInfo_def decl_earlier_def decl_path_def
      normalizePath_slash_path Let_def)

lemma decl_le_iff_compare:
  assumes ord: "collation_order_on h S" and S: "decl_path h a \<in> S" "decl_path h b \<in> S"
  shows "decl_le h a b \<longleftrightarrow> compareDeclarationInfo h a b \<le> 0"
proof (cases "decl_path h a = decl_path h b")
  case True
  then have "localeCompare h (decl_path h a) (decl_path h b) = 0"
    using ord S unfolding collation_order_on_def by blast
  with True show ?thesis
    by (simp add: decl_le_def compareDeclarationInfo_def normalizePath_slash_path
        decl_path_def[symmetric])
next
  case False
  then have "localeCompare h (decl_path h a) (decl_path h b) \<noteq> 0"
    using ord S unfolding collation_order_on_def by blast
  with False show ?thesis
    by (auto simp: decl_le_def compareDeclarationInfo_def normalizePath_slash_path
        decl_path_def[symmetric] Let_def)
qed

lemma decl_le_total:
  assumes ord: "collation_order_on h S" and S: "decl_path h a \<in> S" "decl_path h b \<in> S"
  shows "decl_le h a b \<or> decl_le h b a"
proof (cases "decl_path h a = decl_path h b")
  case True
  then show ?thesis by (auto simp: decl_le_def)
next
  case False
  then have "localeCompare h (decl_path h a) (decl_path h b) \<noteq> 0"
    using ord S unfolding collation_order_on_def by blast
  moreover have "(localeCompare h (decl_path h b) (decl_path h a) < 0) =
                 (0 < localeCompare h (decl_path h a) (decl_path h b))"
    using ord S unfolding collation_order_on_def by blast
  ultimately show ?thesis
    by (auto simp: decl_le_def)
qed

lemma decl_le_trans:
  assumes ord: "collation_order_on h S"
    and S: "decl_path h a \<in> S" "decl_path h b \<in> S" "decl_path h c \<in> S"
    and ab: "decl_le h a b" and bc: "decl_le h b c"
  shows "decl_le h a c"
proof -
  have tr: "localeCompare h (decl_path h a) (decl_path h b) < 0 \<Longrightarrow>
            localeCompare h (decl_path h b) (decl_path h c) < 0 \<Longrightarrow>
            localeCompare h (decl_path h a) (decl_path h c) < 0"
    using ord S unfolding collation_order_on_def by blast
  from ab bc show ?thesis
    unfolding decl_le_def using tr by auto
qed

lemma decl_le_iff_not_earlier:
  assumes ord: "collation_order_on h S" and S: "decl_path h a \<in> S" "decl_path h b \<in> S"
  shows "decl_le h a b \<longleftrightarrow> \<not> decl_earlier h b a"
proof (cases "decl_path h a = decl_path h b")
  case True
  then have "localeCompare h (decl_path h a) (decl_path h b) = 0"
    using ord S unfolding collation_order_on_def by blast
  with True show ?thesis
    by (auto simp: decl_le_def decl_earlier_def)
next
  case False
  then have "localeCompare h (decl_path h a) (decl_path h b) \<noteq> 0"
    using ord S unfolding collation_order_on_def by blast
  moreover have "(localeCompare h (decl_path h b) (decl_path h a) < 0) =
                 (0 < localeCompare h (decl_path h a) (decl_path h b))"
    using ord S unfolding collation_order_on_def by blast
  ultimately show ?thesis
    using False by (auto simp: decl_le_def decl_earlier_def)
qed

lemma sorted_sort_by_decl:
  assumes ord: "collation_order_on h (decl_paths h xs)"
  shows "sorted_wrt (decl_le h) (sort_by (compareDeclarationInfo h) xs)"
proof -
  let ?A = "{a. decl_path h a \<in> decl_paths h xs}"
  have total: "\<And>a b. a \<in> ?A \<Longrightarrow> b \<in> ?A \<Longrightarrow>
      compareDeclarationInfo h a b \<le> 0 \<or> compareDeclarationInfo h b a \<le> 0"
    using decl_le_total[OF ord] decl_le_iff_compare[OF ord] by blast
  have trans: "\<And>a b c. a \<in> ?A \<Longrightarrow> b \<in> ?A \<Longrightarrow> c \<in> ?A \<Longrightarrow>
      compareDeclarationInfo h a b \<le> 0 \<Longrightarrow> compareDeclarationInfo h b c \<le> 0 \<Longrightarrow>
      compareDeclarationInfo h a c \<le> 0"
    using decl_le_trans[OF ord] decl_le_iff_compare[OF ord] by blast
  have sub: "set xs \<subseteq> ?A"
    by (auto simp: decl_paths_def)
  have srt: "sorted_wrt (\<lambda>a b. compareDeclarationInfo h a b \<le> 0)
               (sort_by (compareDeclarationInfo h) xs)"
    by (rule sorted_sort_by_on[of ?A "compareDeclarationInfo h", OF total trans sub])
  have "\<And>a b. a \<in> set (sort_by (compareDeclarationInfo h) xs) \<Longrightarrow>
              b \<in> set (sort_by (compareDeclarationInfo h) xs) \<Longrightarrow>
              compareDeclarationInfo h a b \<le> 0 \<Longrightarrow> decl_le h a b"
    using decl_le_iff_compare[OF ord] sub by (auto simp: set_sort_by)
  with srt show ?thesis
    by (rule sorted_wrt_mono_rel[rotated])
qed

section \<open>The canonicalizer\<close>

lemma visit_miss:
  assumes d: "0 < depth" and miss: "m t = None \<or> m t = Some []"
  shows "visit h opts t depth m =
           (case classify h opts (next_type opts t) depth m of
              (result, m') \<Rightarrow> (result, m'(t \<mapsto> result)))"
proof -
  have c: "(case m t of Some c \<Rightarrow> if c \<noteq> [] then Some c else None | None \<Rightarrow> None) = None"
    using miss by auto
  show ?thesis
    apply (subst visit.simps)
    apply (simp only: c option.case)
    using d
    apply (simp add: classify_def next_type_def Let_def)
    done
qed


lemma visit_depth_limit:
  "depth \<le> 0 \<Longrightarrow> visit h opts t depth m = (''#DepthLimit'', m)"
  by (simp add: visit.simps)

lemma visit_cached:
  "0 < depth \<Longrightarrow> m t = Some k \<Longrightarrow> k \<noteq> [] \<Longrightarrow> visit h opts t depth m = (k, m)"
  by (simp add: visit.simps)

lemma canonicalizeType_depth_limit:
  "depthLimit opts \<le> 0 \<Longrightarrow> canonicalizeType h t opts = ''#DepthLimit''"
  by (simp add: canonicalizeType.simps visit_depth_limit)

lemma canonicalizeType_classify:
  "0 < depthLimit opts \<Longrightarrow>
   canonicalizeType h t opts = fst (classify h opts (next_type opts t) (depthLimit opts) Map.empty)"
  by (simp add: canonicalizeType.simps visit_miss split: prod.split)

lemma classify_not_sentinel:
  assumes render: "typeToString (checker opts) n (fallbackNode opts) \<noteq> ''#DepthLimit''"
  shows "fst (classify h opts n d m) \<noteq> ''#DepthLimit''"
proof (cases "flags (typeAt (checker opts) n)")
  case (Union ts)
  then show ?thesis
    by (simp add: classify_def split: prod.split)
next
  case (Intersection ts)
  then show ?thesis
    by (simp add: classify_def split: prod.split)
next
  case NoSetFlags
  show ?thesis
  proof (cases "getIndexInfoOfType (checker opts) n IndexString \<noteq> None")
    case True
    with NoSetFlags show ?thesis
      by (simp add: classify_def Let_def split: prod.split)
  next
    case False
    with NoSetFlags render show ?thesis
      by (simp add: classify_def Let_def)
  qed
qed

lemma canonicalizeType_not_sentinel:
  assumes d: "0 < depthLimit opts"
    and render: "\<forall>t' n. typeToString (checker opts) t' n \<noteq> ''#DepthLimit''"
  shows "canonicalizeType h t opts \<noteq> ''#DepthLimit''"
  unfolding canonicalizeType_classify[OF d]
  by (rule classify_not_sentinel) (use render in blast)

lemma next_type_plain_object: "plain_object (checker opts) t \<Longrightarrow> next_type opts t = t"
  by (simp add: plain_object_def next_type_def)

lemma classify_plain_object:
  "plain_object (checker opts) t \<Longrightarrow>
   classify h opts t depth m = (''object'' @ canonicalizeObject h opts t (depth - 1), m)"
  by (simp add: plain_object_def classify_def)

lemma canonicalizeType_plain_object:
  assumes "plain_object (checker opts) t" and "0 < depthLimit opts"
  shows "canonicalizeType h t opts = ''object'' @ canonicalizeObject h opts t (depthLimit opts - 1)"
  using assms
  by (simp add: canonicalizeType_classify next_type_plain_object classify_plain_object)

lemma collectProperties_depth_le_0:
  "depthLimit opts \<le> 0 \<Longrightarrow> collectProperties h t opts = []"
  by (simp add: collectProperties.simps)

lemma collectProperties_eq:
  assumes "0 < depthLimit opts"
  shows "collectProperties h t opts =
           sort_by (\<lambda>a b. localeCompare h (name a) (name b))
             (map (prop_fact h opts) (getProperties (typeAt (checker opts) t)))"
proof (cases "getProperties (typeAt (checker opts) t) = []")
  case True
  then show ?thesis using assms
    by (simp add: collectProperties.simps sort_by_Nil)
next
  case False
  then show ?thesis using assms
    by (simp add: collectProperties.simps prop_fact_def[abs_def] Let_def)
qed

lemma self_reference_step:
  assumes po: "plain_object (checker opts) t"
    and props: "getProperties (typeAt (checker opts) t) = [p]"
    and self: "\<forall>n. getTypeOfSymbolAtLocation (checker opts) p n = t"
    and d: "depthLimit opts = d + 2" and d0: "0 \<le> d"
  shows "canonicalizeType h t opts =
           self_key (checker opts) p
             (canonicalizeType h t
                (opts\<lparr>fallbackNode := prop_decl (checker opts) p (fallbackNode opts),
                      depthLimit := d\<rparr>))"
proof -
  let ?o1 = "opts\<lparr>depthLimit := d + 1\<rparr>"
  have pos: "0 < depthLimit opts" using d d0 by simp
  have dm: "depthLimit opts - 1 = d + 1" using d by simp
  have key: "canonicalizeType h t opts = ''object'' @ canonicalizeObject h opts t (d + 1)"
    using canonicalizeType_plain_object[OF po pos, of h] unfolding dm .
  have "collectProperties h t ?o1 = [prop_fact h ?o1 p]"
    using d0 props by (simp add: collectProperties_eq sort_by_def)
  then have obj: "canonicalizeObject h opts t (d + 1) = ''{'' @ entry (prop_fact h ?o1 p) @ ''}''"
    by (simp add: canonicalizeObject.simps)
  have swap: "opts\<lparr>depthLimit := d, fallbackNode := prop_decl (checker opts) p (fallbackNode opts)\<rparr> =
              opts\<lparr>fallbackNode := prop_decl (checker opts) p (fallbackNode opts), depthLimit := d\<rparr>"
    by (cases opts) simp
  have "prop_fact h ?o1 p =
          \<lparr>name = getName (symbolAt (checker opts) p),
           optional = flagOptional (symbolAt (checker opts) p),
           readonly = isReadonly (checker opts) p,
           typeKey = canonicalizeType h t
             (opts\<lparr>fallbackNode := prop_decl (checker opts) p (fallbackNode opts),
                   depthLimit := d\<rparr>)\<rparr>"
    using self by (simp add: prop_fact_def Let_def swap)
  then show ?thesis
    unfolding key obj by (simp add: self_key_def)
qed

lemma self_reference_one:
  assumes po: "plain_object (checker opts) t" and d: "depthLimit opts = 1"
  shows "canonicalizeType h t opts = ''object{}''"
proof -
  have "0 < depthLimit opts" using d by simp
  from canonicalizeType_plain_object[OF po this] d show ?thesis
    by (simp add: canonicalizeObject.simps collectProperties_depth_le_0)
qed

lemma self_reference_closed_form:
  assumes po: "plain_object ck t"
    and props: "getProperties (typeAt ck t) = [p]"
    and self: "\<forall>n. getTypeOfSymbolAtLocation ck p n = t"
  shows "checker opts = ck \<Longrightarrow>
         canonicalizeType h t (opts\<lparr>depthLimit := 2 * int n\<rparr>) =
           (self_key ck p ^^ n) ''#DepthLimit'' \<and>
         canonicalizeType h t (opts\<lparr>depthLimit := 2 * int n + 1\<rparr>) =
           (self_key ck p ^^ n) ''object{}''"
proof (induction n arbitrary: opts)
  case 0
  then show ?case
    using po by (simp add: canonicalizeType_depth_limit self_reference_one)
next
  case (Suc n)
  let ?o = "opts\<lparr>fallbackNode := prop_decl ck p (fallbackNode opts)\<rparr>"
  have ck: "checker ?o = ck" using Suc.prems by simp
  note ih = Suc.IH[OF ck]
  have even: "canonicalizeType h t (opts\<lparr>depthLimit := 2 * int (Suc n)\<rparr>) =
      self_key ck p (canonicalizeType h t (?o\<lparr>depthLimit := 2 * int n\<rparr>))"
    using self_reference_step[of "opts\<lparr>depthLimit := 2 * int (Suc n)\<rparr>" t p "2 * int n" h]
      po props self Suc.prems
    by simp
  have odd: "canonicalizeType h t (opts\<lparr>depthLimit := 2 * int (Suc n) + 1\<rparr>) =
      self_key ck p (canonicalizeType h t (?o\<lparr>depthLimit := 2 * int n + 1\<rparr>))"
    using self_reference_step[of "opts\<lparr>depthLimit := 2 * int (Suc n) + 1\<rparr>" t p "2 * int n + 1" h]
      po props self Suc.prems
    by simp
  show ?case
    unfolding even odd using ih by simp
qed

text \<open>
  C3 (amended). \<open>canonicalizeType\<close> returns the sentinel \<open>#DepthLimit\<close> whenever the depth
  limit is at most 0, and never when it is positive (the type system's renderer never
  prints the sentinel). For a self-referential type, an object whose one property is typed
  as the object itself, the key is finite for every depth limit: for an even limit \<open>2n\<close>
  it is \<open>n\<close> nested objects with the sentinel as the innermost type key; for an odd limit
  \<open>2n + 1\<close> the innermost object is rendered without properties, \<open>object{}\<close>, and the
  sentinel does not appear at the point where the limit is exhausted.
\<close>

theorem canonicalizeType_sentinel:
  "(depthLimit opts \<le> 0 \<longrightarrow> canonicalizeType h t opts = ''#DepthLimit'') \<and>
   (0 < depthLimit opts \<and> (\<forall>t' n. typeToString (checker opts) t' n \<noteq> ''#DepthLimit'') \<longrightarrow>
      canonicalizeType h t opts \<noteq> ''#DepthLimit'') \<and>
   (plain_object (checker opts) t \<and> getProperties (typeAt (checker opts) t) = [p] \<and>
    (\<forall>n. getTypeOfSymbolAtLocation (checker opts) p n = t) \<longrightarrow>
      (\<forall>n. canonicalizeType h t (opts\<lparr>depthLimit := 2 * int n\<rparr>) =
             (self_key (checker opts) p ^^ n) ''#DepthLimit'' \<and>
           canonicalizeType h t (opts\<lparr>depthLimit := 2 * int n + 1\<rparr>) =
             (self_key (checker opts) p ^^ n) ''object{}''))"
  using canonicalizeType_depth_limit[of opts h t] canonicalizeType_not_sentinel[of opts h t]
    self_reference_closed_form[of "checker opts" t p opts h]
  by blast

lemma sample_plain_object: "plain_object sample_checker 0"
  by (simp add: plain_object_def sample_checker_def sample_types_def plain_type_def)

lemma sample_self_key: "self_key sample_checker 0 k = ''object{next:'' @ k @ ''}''"
  by (simp add: self_key_def entry_def isReadonly_def sample_checker_def sample_symbols_def)

theorem canonicalizeType_sentinel_witness:
  "plain_object sample_checker 0 \<and>
   getProperties (typeAt sample_checker 0) = [0] \<and>
   canonicalizeType sample_host 0 (sample_options 0) = ''#DepthLimit'' \<and>
   canonicalizeType sample_host 0 (sample_options 8) \<noteq> ''#DepthLimit'' \<and>
   canonicalizeType sample_host 0 (sample_options 8) =
     ''object{next:object{next:object{next:object{next:#DepthLimit}}}}'' \<and>
   canonicalizeType sample_host 0 (sample_options 7) =
     ''object{next:object{next:object{next:object{}}}}''"
proof -
  have props: "getProperties (typeAt sample_checker 0) = [0]"
    by (simp add: sample_checker_def sample_types_def plain_type_def)
  have self: "\<forall>n. getTypeOfSymbolAtLocation sample_checker 0 n = 0"
    by (simp add: sample_checker_def)
  have render: "\<forall>t' n. typeToString sample_checker t' n \<noteq> ''#DepthLimit''"
    by (simp add: sample_checker_def)
  have ck: "\<And>d. checker (sample_options d) = sample_checker"
    and dl: "\<And>d. depthLimit (sample_options d) = d"
    and upd: "\<And>d e. (sample_options d)\<lparr>depthLimit := e\<rparr> = sample_options e"
    by (simp_all add: sample_options_def)
  have zero: "canonicalizeType sample_host 0 (sample_options 0) = ''#DepthLimit''"
    using canonicalizeType_sentinel[of "sample_options 0" sample_host 0 0] by (simp add: dl)
  have eight: "canonicalizeType sample_host 0 (sample_options 8) \<noteq> ''#DepthLimit''"
    using canonicalizeType_sentinel[of "sample_options 8" sample_host 0 0] render
    by (simp add: dl ck)
  have closed: "\<forall>n. canonicalizeType sample_host 0 (sample_options (2 * int n)) =
                     (self_key sample_checker 0 ^^ n) ''#DepthLimit'' \<and>
                   canonicalizeType sample_host 0 (sample_options (2 * int n + 1)) =
                     (self_key sample_checker 0 ^^ n) ''object{}''"
    using canonicalizeType_sentinel[of "sample_options 0" sample_host 0 0]
      sample_plain_object props self
    by (simp add: ck upd)
  have even: "canonicalizeType sample_host 0 (sample_options 8) =
     ''object{next:object{next:object{next:object{next:#DepthLimit}}}}''"
    using closed[rule_format, of 4] by (simp add: eval_nat_numeral sample_self_key)
  have odd: "canonicalizeType sample_host 0 (sample_options 7) =
     ''object{next:object{next:object{next:object{}}}}''"
    using closed[rule_format, of 3] by (simp add: eval_nat_numeral sample_self_key)
  show ?thesis
    using sample_plain_object props zero eight even odd by (intro conjI)
qed

text \<open>
  C3 (counterexample). The type of \<open>interface ListNode { next: ListNode }\<close> has a property
  typed as itself; with depth limit 1 its key is \<open>object{}\<close>, in which the sentinel does
  not appear although the limit is exhausted at the property.
\<close>

theorem self_reference_depth_one_counterexample:
  "getProperties (typeAt sample_checker 0) = [0] \<and>
   getTypeOfSymbolAtLocation sample_checker 0 50 = 0 \<and>
   canonicalizeType sample_host 0 (sample_options 1) = ''object{}'' \<and>
   \<not> includes_str (canonicalizeType sample_host 0 (sample_options 1)) ''#DepthLimit''"
  by code_simp

lemma visit_stores:
  assumes "0 < d" and "m t = None \<or> m t = Some []"
  shows "snd (visit h opts t d m) t = Some (fst (visit h opts t d m))"
  unfolding visit_miss[of d m t h opts, OF assms] by (simp split: prod.split)

lemma classify_indexed:
  assumes "flags (typeAt (checker opts) n) = NoSetFlags"
    and "getIndexInfoOfType (checker opts) n IndexString = Some si"
  shows "classify h opts n d m =
           (case visit h opts (info_type si) (d - 1) m of
              (stringKey, m1) \<Rightarrow>
                (case (case getIndexInfoOfType (checker opts) n IndexNumber of
                         None \<Rightarrow> ([], m1)
                       | Some ni \<Rightarrow> visit h opts (info_type ni) (d - 1) m1) of
                   (numberKey, m2) \<Rightarrow>
                     (''object[string:'' @ stringKey @ '';number:'' @ numberKey @ '']'' @
                      canonicalizeObject h opts n (d - 1), m2)))"
  using assms
  by (cases "getIndexInfoOfType (checker opts) n IndexNumber")
     (simp_all add: classify_def Let_def split: prod.split)

lemma visit_indexed:
  assumes d: "0 < d" and miss: "m t = None \<or> m t = Some []"
    and fl: "flags (typeAt (checker opts) (next_type opts t)) = NoSetFlags"
    and si: "getIndexInfoOfType (checker opts) (next_type opts t) IndexString = Some si"
  shows "fst (visit h opts t d m) =
           ''object[string:'' @ fst (visit h opts (info_type si) (d - 1) m) @ '';number:'' @
           (case getIndexInfoOfType (checker opts) (next_type opts t) IndexNumber of
              None \<Rightarrow> []
            | Some ni \<Rightarrow> fst (visit h opts (info_type ni) (d - 1)
                              (snd (visit h opts (info_type si) (d - 1) m)))) @
           '']'' @ canonicalizeObject h opts (next_type opts t) (d - 1)"
  unfolding visit_miss[of d m t h opts, OF d miss] classify_indexed[OF fl si]
  by (cases "getIndexInfoOfType (checker opts) (next_type opts t) IndexNumber")
     (auto split: prod.split)

text \<open>Every key in the memo was returned by a visit that ran to its end.\<close>

lemma completed_keys_update:
  assumes "completed_keys h opts m'" and "0 < d" and "m t = None \<or> m t = Some []"
  shows "completed_keys h opts (m'(t \<mapsto> fst (visit h opts t d m)))"
  using assms unfolding completed_keys_def by auto

lemma completed_keys_visit:
  "d \<le> int n \<Longrightarrow> completed_keys h opts m \<Longrightarrow>
   completed_keys h opts (snd (visit h opts t d m))"
proof (induction n arbitrary: d m t)
  case 0
  then show ?case by (simp add: visit_depth_limit)
next
  case (Suc n)
  show ?case
  proof (cases "d \<le> 0")
    case True
    then show ?thesis using Suc.prems by (simp add: visit_depth_limit)
  next
    case False
    then have pos: "0 < d" by simp
    have less: "d - 1 \<le> int n" using Suc.prems(1) by simp
    show ?thesis
    proof (cases "m t = None \<or> m t = Some []")
      case False
      then obtain k where "m t = Some k" "k \<noteq> []" by auto
      then show ?thesis
        using Suc.prems(2) pos by (simp add: visit_cached)
    next
      case True
      let ?n = "next_type opts t"
      have one: "\<And>u m1. completed_keys h opts m1 \<Longrightarrow>
                   completed_keys h opts (snd (visit h opts u (d - 1) m1))"
        using Suc.IH[OF less] .
      have all: "completed_keys h opts m1 \<Longrightarrow>
                 completed_keys h opts (snd (visit_all h opts us (d - 1) m1))" for us m1
      proof (induction us arbitrary: m1)
        case Nil
        then show ?case by (simp add: visit_all.simps)
      next
        case (Cons u us)
        have "snd (visit_all h opts (u # us) (d - 1) m1) =
              snd (visit_all h opts us (d - 1) (snd (visit h opts u (d - 1) m1)))"
          by (simp add: visit_all.simps split: prod.split)
        then show ?case
          using Cons.IH[OF one[OF Cons.prems]] by simp
      qed
      have cl: "completed_keys h opts (snd (classify h opts ?n d m))"
      proof (cases "flags (typeAt (checker opts) ?n)")
        case (Union us)
        then have "snd (classify h opts ?n d m) = snd (visit_all h opts us (d - 1) m)"
          by (simp add: classify_def split: prod.split)
        then show ?thesis using all[OF Suc.prems(2)] by simp
      next
        case (Intersection us)
        then have "snd (classify h opts ?n d m) = snd (visit_all h opts us (d - 1) m)"
          by (simp add: classify_def split: prod.split)
        then show ?thesis using all[OF Suc.prems(2)] by simp
      next
        case NoSetFlags
        show ?thesis
        proof (cases "getIndexInfoOfType (checker opts) ?n IndexString")
          case None
          with NoSetFlags have "snd (classify h opts ?n d m) = m"
            by (simp add: classify_def Let_def)
          then show ?thesis using Suc.prems(2) by simp
        next
          case (Some si)
          note si = Some
          let ?m1 = "snd (visit h opts (info_type si) (d - 1) m)"
          have m1: "completed_keys h opts ?m1"
            by (rule one[OF Suc.prems(2)])
          show ?thesis
          proof (cases "getIndexInfoOfType (checker opts) ?n IndexNumber")
            case None
            then have "snd (classify h opts ?n d m) = ?m1"
              unfolding classify_indexed[OF NoSetFlags si] by (simp split: prod.split)
            then show ?thesis using m1 by simp
          next
            case (Some ni)
            then have "snd (classify h opts ?n d m) =
                       snd (visit h opts (info_type ni) (d - 1) ?m1)"
              unfolding classify_indexed[OF NoSetFlags si] by (simp split: prod.split)
            then show ?thesis using one[OF m1] by simp
          qed
        qed
      qed
      have eq: "snd (visit h opts t d m) =
              (snd (classify h opts ?n d m))(t \<mapsto> fst (visit h opts t d m))"
        unfolding visit_miss[of d m t h opts, OF pos True] by (simp split: prod.split)
      show ?thesis
        by (subst eq) (rule completed_keys_update[of h opts _ d m t, OF cl pos True])
    qed
  qed
qed

lemma completed_keys_empty: "completed_keys h opts Map.empty"
  by (simp add: completed_keys_def)

text \<open>
  C2 (amended). The memo of a traversal has no entry for a visit in progress. A memo hit (a
  non-empty key stored for the type) returns the stored key and leaves the memo as it is;
  at depth 0 or less the sentinel is returned. On a miss the key is computed by the nested
  visits, which start from the memo as it was on entry, and the type is stored only when
  its own visit returns; every key in the memo is the key a completed visit returned. So
  when a type that is being visited is encountered again before any nested visit of it has
  returned, as the value type of its own string index, the recursion is re-entered one
  level deeper: the key at depth \<open>d\<close> contains the key of the nested visit at depth \<open>d - 1\<close>
  from the same memo. A later encounter, as the value type of the numeric index, is visited
  from the memo the first nested visit has left, and is answered from it if a nested visit
  of the type has returned by then, with the key computed at that smaller depth. The depth
  limit, not the memo, is what ends the recursion on cyclic types.
\<close>

theorem visit_memo_no_entry_in_progress:
  "(0 < d \<and> m t = Some k \<and> k \<noteq> [] \<longrightarrow> visit h opts t d m = (k, m)) \<and>
   (d \<le> 0 \<longrightarrow> visit h opts t d m = (''#DepthLimit'', m)) \<and>
   (0 < d \<and> (m t = None \<or> m t = Some []) \<longrightarrow>
      visit h opts t d m =
        (case classify h opts (next_type opts t) d m of
           (result, m') \<Rightarrow> (result, m'(t \<mapsto> result)))) \<and>
   (0 < d \<and> (m t = None \<or> m t = Some []) \<and>
    flags (typeAt (checker opts) (next_type opts t)) = NoSetFlags \<and>
    getIndexInfoOfType (checker opts) (next_type opts t) IndexString = Some si \<longrightarrow>
      fst (visit h opts t d m) =
        ''object[string:'' @ fst (visit h opts (info_type si) (d - 1) m) @ '';number:'' @
        (case getIndexInfoOfType (checker opts) (next_type opts t) IndexNumber of
           None \<Rightarrow> []
         | Some ni \<Rightarrow> fst (visit h opts (info_type ni) (d - 1)
                           (snd (visit h opts (info_type si) (d - 1) m)))) @
        '']'' @ canonicalizeObject h opts (next_type opts t) (d - 1)) \<and>
   (completed_keys h opts m \<longrightarrow> completed_keys h opts (snd (visit h opts t d m)))"
proof -
  have "d \<le> int (nat d)" by simp
  then have "completed_keys h opts m \<Longrightarrow> completed_keys h opts (snd (visit h opts t d m))"
    by (rule completed_keys_visit)
  then show ?thesis
    using visit_cached[of d m t k h opts] visit_depth_limit[of d h opts t m]
      visit_miss[of d m t h opts] visit_indexed[of d m t opts si h]
    by blast
qed

lemma sample_Rec_facts:
  "next_type (sample_options 3) 1 = 1 \<and>
   flags (typeAt sample_checker 1) = NoSetFlags \<and>
   getIndexInfoOfType sample_checker 1 IndexString = Some \<lparr>info_type = 1\<rparr> \<and>
   getIndexInfoOfType sample_checker 1 IndexNumber = None"
  by code_simp

lemma sample_T_facts:
  "next_type (sample_options 4) 40 = 40 \<and>
   flags (typeAt sample_checker 40) = NoSetFlags \<and>
   getIndexInfoOfType sample_checker 40 IndexString = Some \<lparr>info_type = 41\<rparr> \<and>
   getIndexInfoOfType sample_checker 40 IndexNumber = Some \<lparr>info_type = 40\<rparr>"
  by code_simp

lemma sample_T_stored:
  "snd (visit sample_host (sample_options 4) 41 3 Map.empty) 40 =
     Some ''object[string:object[string:#DepthLimit;number:]{};number:object[string:#DepthLimit;number:#DepthLimit]{}]{}''"
  by code_simp

lemma sample_T_nested:
  "fst (visit sample_host (sample_options 4) 40 2
          [41 \<mapsto> ''object[string:#DepthLimit;number:]{}'']) =
     ''object[string:object[string:#DepthLimit;number:]{};number:object[string:#DepthLimit;number:#DepthLimit]{}]{}'' \<and>
   fst (visit sample_host (sample_options 4) 40 3 Map.empty) =
     ''object[string:object[string:object[string:#DepthLimit;number:#DepthLimit]{};number:]{};number:object[string:#DepthLimit;number:#DepthLimit]{}]{}''"
  by code_simp

theorem visit_memo_no_entry_in_progress_witness:
  "visit sample_host (sample_options 3) 1 3 [1 \<mapsto> ''done''] = (''done'', [1 \<mapsto> ''done'']) \<and>
   visit sample_host (sample_options 3) 1 0 Map.empty = (''#DepthLimit'', Map.empty) \<and>
   getIndexInfoOfType sample_checker 1 IndexString = Some \<lparr>info_type = 1\<rparr> \<and>
   fst (visit sample_host (sample_options 3) 1 3 Map.empty) =
     ''object[string:'' @ fst (visit sample_host (sample_options 3) 1 2 Map.empty) @
     '';number:]'' @ canonicalizeObject sample_host (sample_options 3) 1 2 \<and>
   getIndexInfoOfType sample_checker 40 IndexString = Some \<lparr>info_type = 41\<rparr> \<and>
   getIndexInfoOfType sample_checker 40 IndexNumber = Some \<lparr>info_type = 40\<rparr> \<and>
   snd (visit sample_host (sample_options 4) 41 3 Map.empty) 40 =
     Some (fst (visit sample_host (sample_options 4) 40 2
                  [41 \<mapsto> ''object[string:#DepthLimit;number:]{}''])) \<and>
   fst (visit sample_host (sample_options 4) 40 4 Map.empty) =
     ''object[string:'' @ fst (visit sample_host (sample_options 4) 41 3 Map.empty) @
     '';number:'' @
     fst (visit sample_host (sample_options 4) 40 2
            [41 \<mapsto> ''object[string:#DepthLimit;number:]{}'']) @
     '']'' @ canonicalizeObject sample_host (sample_options 4) 40 3 \<and>
   fst (visit sample_host (sample_options 4) 40 2
          [41 \<mapsto> ''object[string:#DepthLimit;number:]{}'']) \<noteq>
     fst (visit sample_host (sample_options 4) 40 3 Map.empty) \<and>
   completed_keys sample_host (sample_options 4)
     (snd (visit sample_host (sample_options 4) 40 4 Map.empty))"
proof -
  let ?K = "''object[string:object[string:#DepthLimit;number:]{};number:object[string:#DepthLimit;number:#DepthLimit]{}]{}''"
  let ?m1 = "snd (visit sample_host (sample_options 4) 41 3 Map.empty)"
  have ck: "\<And>d. checker (sample_options d) = sample_checker"
    by (simp add: sample_options_def)
  have hit: "visit sample_host (sample_options 3) 1 3 [1 \<mapsto> ''done''] =
               (''done'', [1 \<mapsto> ''done''])"
    using visit_memo_no_entry_in_progress
      [where d = 3 and m = "[1 \<mapsto> ''done'']" and t = 1 and k = "''done''"
         and h = sample_host and opts = "sample_options 3", THEN conjunct1]
    by simp
  have limit: "visit sample_host (sample_options 3) 1 0 Map.empty = (''#DepthLimit'', Map.empty)"
    using visit_memo_no_entry_in_progress
      [where d = 0 and m = Map.empty and t = 1 and h = sample_host
         and opts = "sample_options 3", THEN conjunct2, THEN conjunct1]
    by simp
  have rec: "fst (visit sample_host (sample_options 3) 1 3 Map.empty) =
     ''object[string:'' @ fst (visit sample_host (sample_options 3) 1 2 Map.empty) @
     '';number:]'' @ canonicalizeObject sample_host (sample_options 3) 1 2"
    using visit_memo_no_entry_in_progress
      [where d = 3 and m = Map.empty and t = 1 and h = sample_host
         and opts = "sample_options 3" and si = "\<lparr>info_type = 1\<rparr>",
         THEN conjunct2, THEN conjunct2, THEN conjunct2, THEN conjunct1]
      sample_Rec_facts
    by (simp add: ck)
  have cached: "visit sample_host (sample_options 4) 40 3 ?m1 = (?K, ?m1)"
    using visit_memo_no_entry_in_progress
      [where d = 3 and m = ?m1 and t = 40 and k = ?K and h = sample_host
         and opts = "sample_options 4", THEN conjunct1]
      sample_T_stored
    by simp
  have outer: "fst (visit sample_host (sample_options 4) 40 4 Map.empty) =
     ''object[string:'' @ fst (visit sample_host (sample_options 4) 41 3 Map.empty) @
     '';number:'' @ fst (visit sample_host (sample_options 4) 40 3 ?m1) @
     '']'' @ canonicalizeObject sample_host (sample_options 4) 40 3"
    using visit_memo_no_entry_in_progress
      [where d = 4 and m = Map.empty and t = 40 and h = sample_host
         and opts = "sample_options 4" and si = "\<lparr>info_type = 41\<rparr>",
         THEN conjunct2, THEN conjunct2, THEN conjunct2, THEN conjunct1]
      sample_T_facts
    by (simp add: ck)
  have kept: "completed_keys sample_host (sample_options 4)
     (snd (visit sample_host (sample_options 4) 40 4 Map.empty))"
    using visit_memo_no_entry_in_progress
      [where d = 4 and m = Map.empty and t = 40 and h = sample_host
         and opts = "sample_options 4",
         THEN conjunct2, THEN conjunct2, THEN conjunct2, THEN conjunct2]
      completed_keys_empty[of sample_host "sample_options 4"]
    by simp
  have nested: "fst (visit sample_host (sample_options 4) 40 2
                      [41 \<mapsto> ''object[string:#DepthLimit;number:]{}'']) = ?K"
    using sample_T_nested by (rule conjunct1)
  have differ: "fst (visit sample_host (sample_options 4) 40 2
                      [41 \<mapsto> ''object[string:#DepthLimit;number:]{}'']) \<noteq>
                fst (visit sample_host (sample_options 4) 40 3 Map.empty)"
    unfolding sample_T_nested[THEN conjunct1] sample_T_nested[THEN conjunct2] by simp
  have stored: "?m1 40 = Some (fst (visit sample_host (sample_options 4) 40 2
                  [41 \<mapsto> ''object[string:#DepthLimit;number:]{}'']))"
    unfolding nested by (rule sample_T_stored)
  have outer': "fst (visit sample_host (sample_options 4) 40 4 Map.empty) =
     ''object[string:'' @ fst (visit sample_host (sample_options 4) 41 3 Map.empty) @
     '';number:'' @
     fst (visit sample_host (sample_options 4) 40 2
            [41 \<mapsto> ''object[string:#DepthLimit;number:]{}'']) @
     '']'' @ canonicalizeObject sample_host (sample_options 4) 40 3"
    using outer unfolding cached nested by simp
  from hit limit sample_Rec_facts[THEN conjunct2, THEN conjunct2, THEN conjunct1] rec
    sample_T_facts[THEN conjunct2, THEN conjunct2, THEN conjunct1]
    sample_T_facts[THEN conjunct2, THEN conjunct2, THEN conjunct2]
    stored outer' differ kept
  show ?thesis
    by (intro conjI)
qed

text \<open>
  C2 (counterexample). The type of \<open>interface Rec { [k: string]: Rec }\<close> meets itself as
  the value type of its string index. Its visit at depth 3 hands the empty memo to the
  nested visit at depth 2, and so on: the key nests three objects and ends with the
  sentinel, and it changes with the depth limit.
\<close>

theorem memo_reentry_counterexample:
  "getIndexInfoOfType sample_checker 1 IndexString = Some \<lparr>info_type = 1\<rparr> \<and>
   canonicalizeType sample_host 1 (sample_options 3) =
     ''object[string:'' @ fst (visit sample_host (sample_options 3) 1 2 Map.empty) @ '';number:]{}'' \<and>
   canonicalizeType sample_host 1 (sample_options 3) =
     ''object[string:object[string:object[string:#DepthLimit;number:]{};number:]{};number:]{}'' \<and>
   canonicalizeType sample_host 1 (sample_options 2) =
     ''object[string:object[string:#DepthLimit;number:]{};number:]{}''"
  by code_simp


text \<open>
  C6 (the code at the failing input). The type of \<open>interface NumMap { [i: number]: string }\<close>
  has a numeric index signature and no string index signature; its key is the rendering of
  the type, not an \<open>object[string:...;number:...]\<close> key.
\<close>

theorem numeric_index_only_key:
  "getIndexInfoOfType sample_checker 8 IndexNumber = Some \<lparr>info_type = 6\<rparr> \<and>
   getIndexInfoOfType sample_checker 8 IndexString = None \<and>
   canonicalizeType sample_host 8 (sample_options 8) = ''NumMap''"
  by code_simp

section \<open>The property extractor\<close>

lemma sorted_sort_by_name:
  fixes xs :: "PropertyShape list"
  assumes ord: "collation_order_on h S" and sub: "name ` set xs \<subseteq> S"
  shows "sorted_wrt (\<lambda>a b. localeCompare h (name a) (name b) \<le> 0)
           (sort_by (\<lambda>a b. localeCompare h (name a) (name b)) xs)"
proof -
  let ?cmp = "\<lambda>a b :: PropertyShape. localeCompare h (name a) (name b)"
  let ?A = "{a :: PropertyShape. name a \<in> S}"
  have total: "?cmp a b \<le> 0 \<or> ?cmp b a \<le> 0" if "a \<in> ?A" "b \<in> ?A" for a b
    using that collation_le_total[OF ord, of "name a" "name b"] by simp
  have trans: "?cmp a c \<le> 0"
    if "a \<in> ?A" "b \<in> ?A" "c \<in> ?A" "?cmp a b \<le> 0" "?cmp b c \<le> 0" for a b c
    using that collation_le_trans[OF ord, of "name a" "name b" "name c"] by simp
  have xs: "set xs \<subseteq> ?A" using sub by auto
  show ?thesis
    by (rule sorted_sort_by_on[of ?A ?cmp xs, OF total trans xs])
qed

lemma sort_by_name_permutation:
  fixes xs ys :: "PropertyShape list"
  assumes ord: "collation_order_on h S" and sub: "name ` set xs \<subseteq> S"
    and names: "distinct (map name xs)"
    and perm: "mset ys = mset xs"
  shows "sort_by (\<lambda>a b. localeCompare h (name a) (name b)) ys =
         sort_by (\<lambda>a b. localeCompare h (name a) (name b)) xs"
proof -
  let ?cmp = "\<lambda>a b :: PropertyShape. localeCompare h (name a) (name b)"
  let ?R = "\<lambda>a b :: PropertyShape. localeCompare h (name a) (name b) \<le> 0"
  have dx: "distinct xs" using names by (simp add: distinct_map)
  have inj: "inj_on name (set xs)" using names by (simp add: distinct_map)
  have same: "set ys = set xs" using perm by (rule mset_eq_setD)
  have sub': "name ` set ys \<subseteq> S" using sub same by simp
  have m: "mset (sort_by ?cmp ys) = mset (sort_by ?cmp xs)"
    using perm by (simp add: mset_sort_by)
  have sets: "set (sort_by ?cmp ys) = set (sort_by ?cmp xs)"
    using m by (rule mset_eq_setD)
  have d1: "distinct (sort_by ?cmp xs)"
    using dx mset_sort_by[of ?cmp xs] by (metis mset_eq_imp_distinct_iff)
  have d2: "distinct (sort_by ?cmp ys)"
    using d1 m by (metis mset_eq_imp_distinct_iff)
  have anti: "\<And>a b. a \<in> set (sort_by ?cmp ys) \<Longrightarrow> b \<in> set (sort_by ?cmp ys) \<Longrightarrow>
                 ?R a b \<Longrightarrow> ?R b a \<Longrightarrow> a = b"
  proof -
    fix a b
    assume a: "a \<in> set (sort_by ?cmp ys)" and b: "b \<in> set (sort_by ?cmp ys)"
      and ab: "?R a b" and ba: "?R b a"
    have mem: "a \<in> set xs" "b \<in> set xs"
      using a b sets by (simp_all add: set_sort_by)
    then have "name a \<in> S" "name b \<in> S" using sub by auto
    then have "name a = name b"
      using collation_le_antisym[OF ord, of "name a" "name b"] ab ba by simp
    then show "a = b" using inj mem by (simp add: inj_on_def)
  qed
  show ?thesis
    by (rule sorted_wrt_unique[of "sort_by ?cmp ys" ?R "sort_by ?cmp xs", OF anti
          sorted_sort_by_name[OF ord sub'] sorted_sort_by_name[OF ord sub] d2 d1 sets])
qed

lemma name_prop_fact: "name (prop_fact h opts p) = getName (symbolAt (checker opts) p)"
  by (simp add: prop_fact_def Let_def)

lemma names_prop_facts:
  "name ` set (map (prop_fact h opts) (getProperties (typeAt (checker opts) t))) =
     property_names (checker opts) t"
  by (auto simp: property_names_def name_prop_fact image_iff)

lemma collectProperties_mset:
  assumes "0 < depthLimit opts"
  shows "mset (collectProperties h t opts) =
           mset (map (prop_fact h opts) (getProperties (typeAt (checker opts) t)))"
  unfolding collectProperties_eq[OF assms] by (rule mset_sort_by)

lemma collectProperties_stable:
  assumes d: "0 < depthLimit opts"
    and before: "occurs_before x y (map (prop_fact h opts) (getProperties (typeAt (checker opts) t)))"
    and le: "localeCompare h (name x) (name y) \<le> 0"
  shows "occurs_before x y (collectProperties h t opts)"
  unfolding collectProperties_eq[OF d]
  using before le by (rule sort_by_stable)

lemma collectProperties_sorted:
  assumes ord: "collation_order_on h (property_names (checker opts) t)"
  shows "sorted_wrt (\<lambda>a b. localeCompare h (name a) (name b) \<le> 0) (collectProperties h t opts)"
proof (cases "0 < depthLimit opts")
  case True
  have "name ` set (map (prop_fact h opts) (getProperties (typeAt (checker opts) t)))
          \<subseteq> property_names (checker opts) t"
    unfolding names_prop_facts by simp
  from sorted_sort_by_name[OF ord this] True show ?thesis
    by (simp add: collectProperties_eq)
next
  case False
  then show ?thesis by (simp add: collectProperties_depth_le_0)
qed

lemma collectProperties_permutation:
  assumes ord: "collation_order_on h (property_names (checker opts) t)"
    and names: "distinct (map (\<lambda>p. getName (symbolAt (checker opts) p))
                              (getProperties (typeAt (checker opts) t)))"
    and perm: "mset (map (prop_fact h opts) (getProperties (typeAt (checker opts) t'))) =
               mset (map (prop_fact h opts) (getProperties (typeAt (checker opts) t)))"
  shows "collectProperties h t' opts = collectProperties h t opts"
proof (cases "0 < depthLimit opts")
  case True
  have sub: "name ` set (map (prop_fact h opts) (getProperties (typeAt (checker opts) t)))
          \<subseteq> property_names (checker opts) t"
    unfolding names_prop_facts by simp
  have "distinct (map name (map (prop_fact h opts) (getProperties (typeAt (checker opts) t))))"
    using names by (simp add: o_def name_prop_fact)
  from sort_by_name_permutation[OF ord sub this perm] True show ?thesis
    by (simp add: collectProperties_eq)
next
  case False
  then show ?thesis by (simp add: collectProperties_depth_le_0)
qed

lemma canonicalizeObject_permutation:
  assumes ord: "collation_order_on h (property_names (checker opts) n)"
    and same: "same_but_property_order h opts n n'"
  shows "canonicalizeObject h opts n' (depthLimit opts - 1) =
         canonicalizeObject h opts n (depthLimit opts - 1)"
proof -
  let ?o = "opts\<lparr>depthLimit := depthLimit opts - 1\<rparr>"
  have ck: "checker ?o = checker opts" by simp
  have "collectProperties h n' ?o = collectProperties h n ?o"
    by (rule collectProperties_permutation)
       (use ord same in \<open>simp_all add: same_but_property_order_def Let_def\<close>)
  then show ?thesis
    by (simp add: canonicalizeObject.simps)
qed

lemma classify_permutation:
  assumes ord: "collation_order_on h (property_names (checker opts) n)"
    and same: "same_but_property_order h opts n n'"
  shows "fst (classify h opts n' (depthLimit opts) m) = fst (classify h opts n (depthLimit opts) m)"
proof -
  note obj = canonicalizeObject_permutation[OF ord same]
  have fl: "flags (typeAt (checker opts) n') = flags (typeAt (checker opts) n)"
    and si: "getIndexInfoOfType (checker opts) n' IndexString =
             getIndexInfoOfType (checker opts) n IndexString"
    and ni: "getIndexInfoOfType (checker opts) n' IndexNumber =
             getIndexInfoOfType (checker opts) n IndexNumber"
    and ne: "getProperties (typeAt (checker opts) n) \<noteq> []"
    and ms: "mset (map (prop_fact h (opts\<lparr>depthLimit := depthLimit opts - 1\<rparr>))
                       (getProperties (typeAt (checker opts) n'))) =
             mset (map (prop_fact h (opts\<lparr>depthLimit := depthLimit opts - 1\<rparr>))
                       (getProperties (typeAt (checker opts) n)))"
    using same by (simp_all add: same_but_property_order_def Let_def)
  have ne': "getProperties (typeAt (checker opts) n') \<noteq> []"
    using ms ne by auto
  show ?thesis
  proof (cases "flags (typeAt (checker opts) n)")
    case (Union ts)
    then show ?thesis using fl by (simp add: classify_def)
  next
    case (Intersection ts)
    then show ?thesis using fl by (simp add: classify_def)
  next
    case NoSetFlags
    show ?thesis
    proof (cases "getIndexInfoOfType (checker opts) n IndexString")
      case None
      then show ?thesis
        using NoSetFlags fl si ne ne' obj by (simp add: classify_def)
    next
      case (Some s)
      have a: "flags (typeAt (checker opts) n') = NoSetFlags"
        using fl NoSetFlags by simp
      have b: "getIndexInfoOfType (checker opts) n' IndexString = Some s"
        using si Some by simp
      show ?thesis
        unfolding classify_indexed[OF NoSetFlags Some] classify_indexed[OF a b] ni obj
        by (rule refl)
    qed
  qed
qed

lemma canonicalizeType_permutation:
  assumes ord: "collation_order_on h (property_names (checker opts) (next_type opts t))"
    and same: "same_but_property_order h opts (next_type opts t) (next_type opts t')"
  shows "canonicalizeType h t' opts = canonicalizeType h t opts"
proof (cases "0 < depthLimit opts")
  case True
  then show ?thesis
    using classify_permutation[OF ord same] by (simp add: canonicalizeType_classify)
next
  case False
  then show ?thesis by (simp add: canonicalizeType_depth_limit)
qed

text \<open>
  C5 (amended). At a depth limit of 0 or less \<open>collectProperties\<close> returns the empty list.
  Otherwise it returns the facts of the own properties of the type, one for each property,
  arranged by a stable sort whose comparator is the host's \<open>localeCompare\<close> on the names:
  the list has the same facts as the unsorted one, and a fact stays before a later fact
  that \<open>localeCompare\<close> does not put before it. The order is the host's collation, not
  the order of code units. Where \<open>localeCompare\<close> is a strict total order on the property
  names of the type, the list is ascending by name in that collation; where moreover the
  names are distinct, a type with the same facts in another declaration order has the
  same property list, and two types that differ only in the declaration order of their
  properties (after alias resolution: the same flags and index signatures, at least one
  property) have the same canonical key.
\<close>

theorem collectProperties_collation_sorted:
  "(depthLimit opts \<le> 0 \<longrightarrow> collectProperties h t opts = []) \<and>
   (0 < depthLimit opts \<longrightarrow>
      collectProperties h t opts =
        sort_by (\<lambda>a b. localeCompare h (name a) (name b))
          (map (prop_fact h opts) (getProperties (typeAt (checker opts) t))) \<and>
      mset (collectProperties h t opts) =
        mset (map (prop_fact h opts) (getProperties (typeAt (checker opts) t))) \<and>
      (\<forall>x y. occurs_before x y
                (map (prop_fact h opts) (getProperties (typeAt (checker opts) t))) \<and>
              localeCompare h (name x) (name y) \<le> 0 \<longrightarrow>
              occurs_before x y (collectProperties h t opts))) \<and>
   (collation_order_on h (property_names (checker opts) t) \<longrightarrow>
      sorted_wrt (\<lambda>a b. localeCompare h (name a) (name b) \<le> 0) (collectProperties h t opts) \<and>
      (\<forall>t'. distinct (map (\<lambda>p. getName (symbolAt (checker opts) p))
                          (getProperties (typeAt (checker opts) t))) \<and>
             mset (map (prop_fact h opts) (getProperties (typeAt (checker opts) t'))) =
             mset (map (prop_fact h opts) (getProperties (typeAt (checker opts) t))) \<longrightarrow>
             collectProperties h t' opts = collectProperties h t opts)) \<and>
   (\<forall>t'. collation_order_on h (property_names (checker opts) (next_type opts t)) \<and>
          same_but_property_order h opts (next_type opts t) (next_type opts t') \<longrightarrow>
          canonicalizeType h t' opts = canonicalizeType h t opts)"
proof -
  have a: "depthLimit opts \<le> 0 \<longrightarrow> collectProperties h t opts = []"
    by (simp add: collectProperties_depth_le_0)
  have b: "0 < depthLimit opts \<longrightarrow>
      collectProperties h t opts =
        sort_by (\<lambda>a b. localeCompare h (name a) (name b))
          (map (prop_fact h opts) (getProperties (typeAt (checker opts) t))) \<and>
      mset (collectProperties h t opts) =
        mset (map (prop_fact h opts) (getProperties (typeAt (checker opts) t))) \<and>
      (\<forall>x y. occurs_before x y
                (map (prop_fact h opts) (getProperties (typeAt (checker opts) t))) \<and>
              localeCompare h (name x) (name y) \<le> 0 \<longrightarrow>
              occurs_before x y (collectProperties h t opts))"
    using collectProperties_eq[of opts h t] collectProperties_mset[of opts h t]
      collectProperties_stable[of opts _ _ h t]
    by blast
  have c: "collation_order_on h (property_names (checker opts) t) \<longrightarrow>
      sorted_wrt (\<lambda>a b. localeCompare h (name a) (name b) \<le> 0) (collectProperties h t opts) \<and>
      (\<forall>t'. distinct (map (\<lambda>p. getName (symbolAt (checker opts) p))
                          (getProperties (typeAt (checker opts) t))) \<and>
             mset (map (prop_fact h opts) (getProperties (typeAt (checker opts) t'))) =
             mset (map (prop_fact h opts) (getProperties (typeAt (checker opts) t))) \<longrightarrow>
             collectProperties h t' opts = collectProperties h t opts)"
    using collectProperties_sorted[of h opts t] collectProperties_permutation[of h opts t]
    by blast
  have d: "\<forall>t'. collation_order_on h (property_names (checker opts) (next_type opts t)) \<and>
          same_but_property_order h opts (next_type opts t) (next_type opts t') \<longrightarrow>
          canonicalizeType h t' opts = canonicalizeType h t opts"
    using canonicalizeType_permutation[of h opts t] by blast
  from a b c d show ?thesis by (intro conjI)
qed

lemma sample_facts_12:
  "map (prop_fact letter_host (sample_options 7)) (getProperties (typeAt sample_checker 12)) =
     [fact ''B'' ''string'', fact ''a'' ''number'']"
  by code_simp

lemma sample_facts_13:
  "map (prop_fact letter_host (sample_options 7)) (getProperties (typeAt sample_checker 13)) =
     [fact ''a'' ''number'', fact ''B'' ''string'']"
  by code_simp

lemma sample_key_12:
  "canonicalizeType letter_host 12 (sample_options 8) = ''object{a:number,B:string}''"
  by code_simp

lemma sample_shape_12_13:
  "next_type (sample_options 8) 12 = 12 \<and> next_type (sample_options 8) 13 = 13 \<and>
   flags (typeAt sample_checker 13) = flags (typeAt sample_checker 12) \<and>
   getIndexInfoOfType sample_checker 13 IndexString =
     getIndexInfoOfType sample_checker 12 IndexString \<and>
   getIndexInfoOfType sample_checker 13 IndexNumber =
     getIndexInfoOfType sample_checker 12 IndexNumber \<and>
   map (\<lambda>p. getName (symbolAt sample_checker p)) (getProperties (typeAt sample_checker 12)) =
     [''B'', ''a''] \<and>
   map (\<lambda>p. getName (symbolAt sample_checker p)) (getProperties (typeAt sample_checker 13)) =
     [''a'', ''B'']"
  by code_simp

theorem collectProperties_collation_sorted_witness:
  "collectProperties letter_host 12 (sample_options 0) = [] \<and>
   map (\<lambda>p. getName (symbolAt sample_checker p)) (getProperties (typeAt sample_checker 12)) =
     [''B'', ''a''] \<and>
   map (\<lambda>p. getName (symbolAt sample_checker p)) (getProperties (typeAt sample_checker 13)) =
     [''a'', ''B''] \<and>
   collectProperties letter_host 12 (sample_options 7) =
     sort_by (\<lambda>a b. localeCompare letter_host (name a) (name b))
       [fact ''B'' ''string'', fact ''a'' ''number''] \<and>
   mset (collectProperties letter_host 12 (sample_options 7)) =
     mset [fact ''B'' ''string'', fact ''a'' ''number''] \<and>
   occurs_before (fact ''a'' ''number'') (fact ''B'' ''string'')
     (collectProperties letter_host 13 (sample_options 7)) \<and>
   collation_order_on letter_host (property_names sample_checker 12) \<and>
   sorted_wrt (\<lambda>a b. localeCompare letter_host (name a) (name b) \<le> 0)
     (collectProperties letter_host 12 (sample_options 7)) \<and>
   collectProperties letter_host 13 (sample_options 7) =
     collectProperties letter_host 12 (sample_options 7) \<and>
   same_but_property_order letter_host (sample_options 8) 12 13 \<and>
   canonicalizeType letter_host 13 (sample_options 8) =
     canonicalizeType letter_host 12 (sample_options 8) \<and>
   canonicalizeType letter_host 12 (sample_options 8) = ''object{a:number,B:string}''"
proof -
  have ck: "\<And>d. checker (sample_options d) = sample_checker"
    and dl: "\<And>d. depthLimit (sample_options d) = d"
    and upd: "(sample_options 8)\<lparr>depthLimit := depthLimit (sample_options 8) - 1\<rparr> = sample_options 7"
    by (simp_all add: sample_options_def)
  note shape = sample_shape_12_13
  have n12: "map (\<lambda>p. getName (symbolAt sample_checker p))
               (getProperties (typeAt sample_checker 12)) = [''B'', ''a'']"
    and n13: "map (\<lambda>p. getName (symbolAt sample_checker p))
               (getProperties (typeAt sample_checker 13)) = [''a'', ''B'']"
    using shape by simp_all
  have names: "distinct (map (\<lambda>p. getName (symbolAt sample_checker p))
                             (getProperties (typeAt sample_checker 12)))"
    unfolding n12 by simp
  have perm: "mset (map (prop_fact letter_host (sample_options 7))
                        (getProperties (typeAt sample_checker 13))) =
              mset (map (prop_fact letter_host (sample_options 7))
                        (getProperties (typeAt sample_checker 12)))"
    unfolding sample_facts_12 sample_facts_13 by simp
  have ne: "getProperties (typeAt sample_checker 12) \<noteq> []"
    using n12 by auto
  have same: "same_but_property_order letter_host (sample_options 8) 12 13"
    unfolding same_but_property_order_def Let_def ck upd
    using shape names perm ne by simp
  have ord: "\<And>S. collation_order_on letter_host S"
    by (rule collation_order_on_letter_host)
  have pos7: "0 < depthLimit (sample_options 7)"
    by (simp add: dl)
  note at0 = collectProperties_collation_sorted
    [where h = letter_host and t = 12 and opts = "sample_options 0", THEN conjunct1]
  note at7 = collectProperties_collation_sorted
    [where h = letter_host and t = 12 and opts = "sample_options 7",
     THEN conjunct2, THEN conjunct1, THEN mp, OF pos7]
  note at7' = collectProperties_collation_sorted
    [where h = letter_host and t = 13 and opts = "sample_options 7",
     THEN conjunct2, THEN conjunct1, THEN mp, OF pos7]
  note ord7 = collectProperties_collation_sorted
    [where h = letter_host and t = 12 and opts = "sample_options 7",
     THEN conjunct2, THEN conjunct2, THEN conjunct1, THEN mp, OF ord]
  note key8 = collectProperties_collation_sorted
    [where h = letter_host and t = 12 and opts = "sample_options 8",
     THEN conjunct2, THEN conjunct2, THEN conjunct2, THEN spec, of 13]
  have empty: "collectProperties letter_host 12 (sample_options 0) = []"
    using at0 by (simp add: dl)
  have eq7: "collectProperties letter_host 12 (sample_options 7) =
     sort_by (\<lambda>a b. localeCompare letter_host (name a) (name b))
       [fact ''B'' ''string'', fact ''a'' ''number'']"
    using at7[THEN conjunct1] unfolding ck sample_facts_12 .
  have mset7: "mset (collectProperties letter_host 12 (sample_options 7)) =
     mset [fact ''B'' ''string'', fact ''a'' ''number'']"
    using at7[THEN conjunct2, THEN conjunct1] unfolding ck sample_facts_12 .
  have cmp: "localeCompare letter_host (name (fact ''a'' ''number''))
               (name (fact ''B'' ''string'')) \<le> 0"
    by code_simp
  have before: "occurs_before (fact ''a'' ''number'') (fact ''B'' ''string'')
                  [fact ''a'' ''number'', fact ''B'' ''string'']"
    by simp
  have stable: "occurs_before (fact ''a'' ''number'') (fact ''B'' ''string'')
     (collectProperties letter_host 13 (sample_options 7))"
    using at7'[THEN conjunct2, THEN conjunct2, THEN spec, THEN spec,
        of "fact ''a'' ''number''" "fact ''B'' ''string''"]
      before cmp
    unfolding ck sample_facts_13 by blast
  have sorted7: "sorted_wrt (\<lambda>a b. localeCompare letter_host (name a) (name b) \<le> 0)
     (collectProperties letter_host 12 (sample_options 7))"
    by (rule ord7[THEN conjunct1])
  have same7: "collectProperties letter_host 13 (sample_options 7) =
     collectProperties letter_host 12 (sample_options 7)"
    using ord7[THEN conjunct2, THEN spec, of 13] names perm unfolding ck by blast
  have same8: "canonicalizeType letter_host 13 (sample_options 8) =
     canonicalizeType letter_host 12 (sample_options 8)"
    using key8 ord[of "property_names sample_checker 12"] same
      shape[THEN conjunct1] shape[THEN conjunct2, THEN conjunct1]
    unfolding ck by simp
  from empty n12 n13 eq7 mset7 stable ord[of "property_names sample_checker 12"]
    sorted7 same7 same same8 sample_key_12
  show ?thesis
    by (intro conjI)
qed

text \<open>
  C5 (counterexample). On a host whose collation orders letters without regard to case, the
  type \<open>{ B: string; a: number }\<close> has its facts in the order \<open>a\<close>, \<open>B\<close>, which is not
  ascending in the order of code units (\<open>B\<close> is 66, \<open>a\<close> is 97).
\<close>

theorem collectProperties_not_code_unit_order_counterexample:
  "map name (collectProperties letter_host 12 (sample_options 8)) = [''a'', ''B''] \<and>
   \<not> sorted (map name (collectProperties letter_host 12 (sample_options 8)))"
  by code_simp

section \<open>The base finder\<close>

lemma isSubset_iff: "isSubset base derived \<longleftrightarrow> (\<forall>p\<in>set base. p \<in> set derived)"
proof -
  have eq: "\<And>(c :: PropertyShape) p.
      (name c = name p \<and> optional c = optional p \<and> readonly c = readonly p \<and> typeKey c = typeKey p)
      \<longleftrightarrow> c = p"
    by auto
  show ?thesis
    unfolding isSubset_def list_all_iff list_ex_iff eq by auto
qed

lemma best_step_skip:
  assumes "shape target = ObjectShape k tps" and "\<not> qualifies target c"
  shows "best_step h target tps best c = best"
  using assms
  by (cases "shape c")
     (auto simp: best_step_def qualifies_def isSubset_iff list_all_iff)

lemma best_step_first:
  assumes "shape target = ObjectShape k tps" and "qualifies target c"
  shows "best_step h target tps None c = Some c"
  using assms
  by (cases "shape c")
     (auto simp: best_step_def qualifies_def isSubset_iff list_all_iff)

text \<open>One step of the loop, when the candidate and the choice so far both qualify.\<close>

lemma best_step_next:
  assumes tgt: "shape target = ObjectShape k tps"
    and qc: "qualifies target c" and qb: "qualifies target b"
  shows "best_step h target tps (Some b) c =
           Some (if property_count b < property_count c then c
                 else if property_count c = property_count b then pick_earlier h b c
                 else b)"
proof -
  obtain kc cps where sc: "shape c = ObjectShape kc cps"
    using qc by (cases "shape c") (auto simp: qualifies_def)
  obtain kb bps where sb: "shape b = ObjectShape kb bps"
    using qb by (cases "shape b") (auto simp: qualifies_def)
  have guard: "symbol c \<noteq> symbol target" "cps \<noteq> []" "\<not> length tps \<le> length cps"
    "isSubset cps tps"
    using qc sc tgt by (auto simp: qualifies_def isSubset_iff list_all_iff)
  show ?thesis
    using guard sc sb
    by (simp add: best_step_def property_count_def pick_earlier_def compare_less_iff)
qed

lemma foldl_best_step_Some:
  assumes tgt: "shape target = ObjectShape k tps"
  shows "qualifies target b \<Longrightarrow>
         \<exists>r. foldl (best_step h target tps) (Some b) cs = Some r \<and>
             r \<in> set (b # cs) \<and> qualifies target r \<and>
             (\<forall>c\<in>set (b # cs). qualifies target c \<longrightarrow> property_count c \<le> property_count r) \<and>
             first_earliest h
               (filter (\<lambda>c. qualifies target c \<and> property_count c = property_count r) (b # cs))
               = Some r"
proof (induction cs arbitrary: b)
  case Nil
  then show ?case by simp
next
  case (Cons c cs)
  show ?case
  proof (cases "qualifies target c")
    case False
    then have same: "best_step h target tps (Some b) c = Some b"
      using best_step_skip[OF tgt] by simp
    from Cons.IH[OF Cons.prems] obtain r where
      r: "foldl (best_step h target tps) (Some b) cs = Some r" "r \<in> set (b # cs)"
         "qualifies target r"
         "\<forall>c\<in>set (b # cs). qualifies target c \<longrightarrow> property_count c \<le> property_count r"
         "first_earliest h
            (filter (\<lambda>c. qualifies target c \<and> property_count c = property_count r) (b # cs))
            = Some r"
      by blast
    have "foldl (best_step h target tps) (Some b) (c # cs) = Some r"
      using r(1) same by simp
    moreover have "r \<in> set (b # c # cs)"
      using r(2) by auto
    moreover have "\<forall>x\<in>set (b # c # cs). qualifies target x \<longrightarrow>
                     property_count x \<le> property_count r"
      using r(4) False by auto
    moreover have "first_earliest h
            (filter (\<lambda>c. qualifies target c \<and> property_count c = property_count r) (b # c # cs))
            = Some r"
      using r(5) False Cons.prems
      by (cases "property_count b = property_count r") simp_all
    ultimately show ?thesis
      using r(3) by blast
  next
    case True
    define b' where "b' = (if property_count b < property_count c then c
                 else if property_count c = property_count b then pick_earlier h b c
                 else b)"
    have step: "best_step h target tps (Some b) c = Some b'"
      unfolding b'_def by (rule best_step_next[OF tgt True Cons.prems])
    have b'_in: "b' = b \<or> b' = c"
      by (simp add: b'_def pick_earlier_def)
    then have qb': "qualifies target b'"
      using True Cons.prems by auto
    from Cons.IH[OF qb'] obtain r where
      r: "foldl (best_step h target tps) (Some b') cs = Some r" "r \<in> set (b' # cs)"
         "qualifies target r"
         "\<forall>c\<in>set (b' # cs). qualifies target c \<longrightarrow> property_count c \<le> property_count r"
         "first_earliest h
            (filter (\<lambda>c. qualifies target c \<and> property_count c = property_count r) (b' # cs))
            = Some r"
      by blast
    have b'_le: "property_count b' \<le> property_count r"
      using r(4) qb' by simp
    have b'_max: "property_count b \<le> property_count b'" "property_count c \<le> property_count b'"
      by (auto simp: b'_def pick_earlier_def)
    have "foldl (best_step h target tps) (Some b) (c # cs) = Some r"
      using r(1) step by simp
    moreover have "r \<in> set (b # c # cs)"
      using r(2) b'_in by auto
    moreover have "\<forall>x\<in>set (b # c # cs). qualifies target x \<longrightarrow>
                     property_count x \<le> property_count r"
      using r(4) b'_le b'_max by auto
    moreover have "first_earliest h
            (filter (\<lambda>c. qualifies target c \<and> property_count c = property_count r) (b # c # cs))
            = Some r"
    proof -
      let ?P = "\<lambda>c. qualifies target c \<and> property_count c = property_count r"
      let ?F = "filter ?P cs"
      note qb = Cons.prems and qc = True
      consider (more) "property_count b < property_count c"
        | (tie) "property_count c = property_count b"
        | (less) "property_count c < property_count b"
        by linarith
      then show ?thesis
      proof cases
        case more
        then have b': "b' = c" by (simp add: b'_def)
        have "\<not> ?P b"
          using more b'_le b'_max by simp
        then have "filter ?P (b # c # cs) = filter ?P (b' # cs)"
          unfolding b' by auto
        then show ?thesis using r(5) by simp
      next
        case tie
        then have b': "b' = pick_earlier h b c" by (simp add: b'_def)
        show ?thesis
        proof (cases "property_count b = property_count r")
          case True
          then have "?P b" "?P c" "?P b'"
            using tie b'_in qb qc by auto
          then have "filter ?P (b # c # cs) = b # c # ?F" "filter ?P (b' # cs) = b' # ?F"
            by auto
          then show ?thesis
            using r(5) b' by simp
        next
          case False
          then have "\<not> ?P b" "\<not> ?P c" "\<not> ?P b'"
            using tie b'_in by auto
          then have "filter ?P (b # c # cs) = ?F" "filter ?P (b' # cs) = ?F"
            by auto
          then show ?thesis
            using r(5) by simp
        qed
      next
        case less
        then have b': "b' = b" by (simp add: b'_def)
        have "\<not> ?P c"
          using less b'_le b'_max by simp
        then have "filter ?P (b # c # cs) = filter ?P (b' # cs)"
          unfolding b' by auto
        then show ?thesis using r(5) by simp
      qed
    qed
    ultimately show ?thesis
      using r(3) by blast
  qed
qed

lemma foldl_best_step_None:
  assumes tgt: "shape target = ObjectShape k tps"
  shows "(foldl (best_step h target tps) None cs = None \<longleftrightarrow>
            (\<forall>c\<in>set cs. \<not> qualifies target c)) \<and>
         (\<forall>r. foldl (best_step h target tps) None cs = Some r \<longrightarrow>
             r \<in> set cs \<and> qualifies target r \<and>
             (\<forall>c\<in>set cs. qualifies target c \<longrightarrow> property_count c \<le> property_count r) \<and>
             first_earliest h
               (filter (\<lambda>c. qualifies target c \<and> property_count c = property_count r) cs)
               = Some r)"
proof (induction cs)
  case Nil
  show ?case by simp
next
  case (Cons c cs)
  show ?case
  proof (cases "qualifies target c")
    case False
    then have "best_step h target tps None c = None"
      using best_step_skip[OF tgt] by simp
    then have run: "foldl (best_step h target tps) None (c # cs) =
                    foldl (best_step h target tps) None cs"
      by simp
    have flt: "filter (\<lambda>c. qualifies target c \<and> property_count c = property_count r) (c # cs) =
               filter (\<lambda>c. qualifies target c \<and> property_count c = property_count r) cs" for r
      using False by simp
    have ball: "(\<forall>x\<in>set (c # cs). \<not> qualifies target x) \<longleftrightarrow>
                (\<forall>x\<in>set cs. \<not> qualifies target x)"
      using False by simp
    have ball': "(\<forall>x\<in>set (c # cs). qualifies target x \<longrightarrow> property_count x \<le> n) \<longleftrightarrow>
                 (\<forall>x\<in>set cs. qualifies target x \<longrightarrow> property_count x \<le> n)" for n
      using False by simp
    from Cons.IH show ?thesis
      unfolding run flt ball ball' by auto
  next
    case True
    have "best_step h target tps None c = Some c"
      by (rule best_step_first[OF tgt True])
    then have run: "foldl (best_step h target tps) None (c # cs) =
                    foldl (best_step h target tps) (Some c) cs"
      by simp
    from foldl_best_step_Some[OF tgt True, of h cs] obtain r where
      r: "foldl (best_step h target tps) (Some c) cs = Some r" "r \<in> set (c # cs)"
         "qualifies target r"
         "\<forall>x\<in>set (c # cs). qualifies target x \<longrightarrow> property_count x \<le> property_count r"
         "first_earliest h
            (filter (\<lambda>c. qualifies target c \<and> property_count c = property_count r) (c # cs))
            = Some r"
      by blast
    have none: "foldl (best_step h target tps) None (c # cs) = None \<longleftrightarrow>
                (\<forall>x\<in>set (c # cs). \<not> qualifies target x)"
      unfolding run r(1) using True by auto
    have some: "\<forall>r'. foldl (best_step h target tps) None (c # cs) = Some r' \<longrightarrow>
             r' \<in> set (c # cs) \<and> qualifies target r' \<and>
             (\<forall>x\<in>set (c # cs). qualifies target x \<longrightarrow> property_count x \<le> property_count r') \<and>
             first_earliest h
               (filter (\<lambda>c. qualifies target c \<and> property_count c = property_count r') (c # cs))
               = Some r'"
      unfolding run r(1)
    proof (intro allI impI)
      fix r'
      assume "Some r = Some r'"
      then have eq: "r' = r" by simp
      from r(2,3,4,5) show "r' \<in> set (c # cs) \<and> qualifies target r' \<and>
             (\<forall>x\<in>set (c # cs). qualifies target x \<longrightarrow> property_count x \<le> property_count r') \<and>
             first_earliest h
               (filter (\<lambda>c. qualifies target c \<and> property_count c = property_count r') (c # cs))
               = Some r'"
        unfolding eq by (intro conjI)
    qed
    from none some show ?thesis by (rule conjI)
  qed
qed

text \<open>
  Where the collation is a strict total order on the paths of a list, the left-to-right
  choice is a declaration of the list that is not later than any other.
\<close>

lemma decl_earlier_le: "decl_earlier h a b \<Longrightarrow> decl_le h a b"
  by (auto simp: decl_earlier_def decl_le_def split: if_splits)

lemma foldl_pick_earlier_min:
  assumes ord: "collation_order_on h S"
  shows "decl_path h ` set (m # ms) \<subseteq> S \<Longrightarrow>
         foldl (pick_earlier h) m ms \<in> set (m # ms) \<and>
         (\<forall>c\<in>set (m # ms). decl_le h (foldl (pick_earlier h) m ms) c)"
proof (induction ms arbitrary: m)
  case Nil
  then show ?case
    using decl_le_total[OF ord, of m m] by auto
next
  case (Cons c cs)
  let ?m' = "pick_earlier h m c"
  let ?r = "foldl (pick_earlier h) ?m' cs"
  have m'_in: "?m' = m \<or> ?m' = c"
    by (simp add: pick_earlier_def)
  have inS: "decl_path h m \<in> S" "decl_path h c \<in> S" "decl_path h ` set cs \<subseteq> S"
    using Cons.prems by auto
  have sub: "decl_path h ` set (?m' # cs) \<subseteq> S"
    using m'_in inS by auto
  from Cons.IH[OF sub] have r_in: "?r \<in> set (?m' # cs)"
    and r_min: "\<forall>x\<in>set (?m' # cs). decl_le h ?r x"
    by blast+
  have rS: "decl_path h ?r \<in> S"
    using r_in sub by blast
  have m'S: "decl_path h ?m' \<in> S"
    using sub by simp
  have r_m': "decl_le h ?r ?m'"
    using r_min by simp
  have m'_m: "decl_le h ?m' m"
  proof (cases "decl_earlier h c m")
    case True
    then show ?thesis by (simp add: pick_earlier_def decl_earlier_le)
  next
    case False
    then show ?thesis
      using decl_le_total[OF ord inS(1) inS(1)] by (simp add: pick_earlier_def)
  qed
  have m'_c: "decl_le h ?m' c"
  proof (cases "decl_earlier h c m")
    case True
    then show ?thesis
      using decl_le_total[OF ord inS(2) inS(2)] by (simp add: pick_earlier_def)
  next
    case False
    then show ?thesis
      using decl_le_iff_not_earlier[OF ord inS(1) inS(2)] by (simp add: pick_earlier_def)
  qed
  have "decl_le h ?r m"
    by (rule decl_le_trans[OF ord rS m'S inS(1) r_m' m'_m])
  moreover have "decl_le h ?r c"
    by (rule decl_le_trans[OF ord rS m'S inS(2) r_m' m'_c])
  moreover have "?r \<in> set (m # c # cs)"
    using r_in m'_in by auto
  ultimately show ?case
    using r_min by auto
qed

lemma first_earliest_min:
  assumes ord: "collation_order_on h (decl_paths h xs)" and r: "first_earliest h xs = Some r"
  shows "\<forall>c\<in>set xs. decl_le h r c"
proof (cases xs)
  case Nil
  then show ?thesis by simp
next
  case (Cons m ms)
  have "decl_path h ` set (m # ms) \<subseteq> decl_paths h xs"
    using Cons by (auto simp: decl_paths_def)
  from foldl_pick_earlier_min[OF ord this] r Cons show ?thesis
    by simp
qed

lemma no_candidate_without_properties:
  "shape_properties (shape target) = [] \<Longrightarrow> \<not> qualifies target c"
  by (simp add: qualifies_def)

lemmas base_sample_defs =
  base_candidates_def base_case_candidates_def base_target_def base_one_def base_two_late_def
  base_two_early_def base_two_upper_def base_foreign_def base_other_def decl_info_def fact_def

lemmas base_run_defs =
  findBestInterfaceBase_def best_step_def isSubset_def compareDeclarationInfo_def
  normalizePath_def

lemma base_case_result:
  "findBestInterfaceBase letter_host base_target base_case_candidates = Some base_two_early"
  by code_simp

lemma base_case_tied:
  "filter (\<lambda>c. qualifies base_target c \<and> property_count c = property_count base_two_early)
     base_case_candidates = [base_two_upper, base_two_early, base_two_late]"
  by code_simp

text \<open>
  C1 (counterexample). On a host whose collation orders letters without regard to case,
  the candidates declared in \<open>src/B.ts\<close> and in \<open>src/a.ts\<close> both qualify with two facts,
  and \<open>findBestInterfaceBase\<close> returns the one in \<open>src/a.ts\<close>, although \<open>src/B.ts\<close> is the
  lexicographically smaller path.
\<close>

theorem findBestInterfaceBase_not_lexicographic_counterexample:
  "findBestInterfaceBase letter_host base_target base_case_candidates = Some base_two_early \<and>
   base_two_upper \<in> set base_case_candidates \<and>
   qualifies base_target base_two_upper \<and>
   qualifies base_target base_two_early \<and>
   property_count base_two_upper = property_count base_two_early \<and>
   fileName (sourceFile base_two_upper) < fileName (sourceFile base_two_early)"
  by code_simp

text \<open>
  C1 (amended). \<open>findBestInterfaceBase\<close> returns none exactly when no candidate qualifies as
  a structural base (another symbol, an object shape with a non-empty property list shorter
  than the target's, every fact among the target's facts). Otherwise it returns a qualifying
  candidate of the list with the greatest property count, and among the qualifying
  candidates with that count the one the loop's left-to-right choice keeps: the first of
  them, replaced by each later one that \<open>compareDeclarationInfo\<close> puts strictly before the
  choice so far (path with separators replaced by slashes, compared by the host's
  \<open>localeCompare\<close>, then position). Where \<open>localeCompare\<close> is a strict total order on the
  paths of those candidates, that choice is not later than any of them in the host's
  declaration order.
\<close>

theorem findBestInterfaceBase_best_qualifying:
  "(findBestInterfaceBase h target infos = None \<longleftrightarrow> \<not> list_ex (qualifies target) infos) \<and>
   (\<forall>r. findBestInterfaceBase h target infos = Some r \<longrightarrow>
        r \<in> set infos \<and> qualifies target r \<and>
        (\<forall>c\<in>set infos. qualifies target c \<longrightarrow> property_count c \<le> property_count r) \<and>
        first_earliest h
          (filter (\<lambda>c. qualifies target c \<and> property_count c = property_count r) infos)
          = Some r \<and>
        (collation_order_on h
           (decl_paths h
              (filter (\<lambda>c. qualifies target c \<and> property_count c = property_count r) infos))
         \<longrightarrow> (\<forall>c\<in>set infos. qualifies target c \<and> property_count c = property_count r
                 \<longrightarrow> decl_le h r c)))"
proof (cases "shape_properties (shape target) = []")
  case True
  then have none: "findBestInterfaceBase h target infos = None"
    by (cases "shape target") (simp_all add: findBestInterfaceBase_def)
  with True show ?thesis
    by (simp add: list_ex_iff no_candidate_without_properties)
next
  case False
  then obtain k tps where tgt: "shape target = ObjectShape k tps" and ne: "tps \<noteq> []"
    by (cases "shape target") auto
  have run: "findBestInterfaceBase h target infos = foldl (best_step h target tps) None infos"
    using tgt ne by (simp add: findBestInterfaceBase_def)
  have none: "findBestInterfaceBase h target infos = None \<longleftrightarrow>
              \<not> list_ex (qualifies target) infos"
    unfolding run list_ex_iff using foldl_best_step_None[OF tgt, of h infos] by blast
  have some: "r \<in> set infos \<and> qualifies target r \<and>
        (\<forall>c\<in>set infos. qualifies target c \<longrightarrow> property_count c \<le> property_count r) \<and>
        first_earliest h
          (filter (\<lambda>c. qualifies target c \<and> property_count c = property_count r) infos)
          = Some r \<and>
        (collation_order_on h
           (decl_paths h
              (filter (\<lambda>c. qualifies target c \<and> property_count c = property_count r) infos))
         \<longrightarrow> (\<forall>c\<in>set infos. qualifies target c \<and> property_count c = property_count r
                 \<longrightarrow> decl_le h r c))"
    if r: "findBestInterfaceBase h target infos = Some r" for r
  proof -
    let ?F = "filter (\<lambda>c. qualifies target c \<and> property_count c = property_count r) infos"
    from foldl_best_step_None[OF tgt, of h infos] r
    have main: "r \<in> set infos" "qualifies target r"
      "\<forall>c\<in>set infos. qualifies target c \<longrightarrow> property_count c \<le> property_count r"
      "first_earliest h ?F = Some r"
      unfolding run by blast+
    have "\<forall>c\<in>set infos. qualifies target c \<and> property_count c = property_count r
                 \<longrightarrow> decl_le h r c"
      if ord: "collation_order_on h (decl_paths h ?F)"
      using first_earliest_min[OF ord main(4)] by simp
    with main show ?thesis by blast
  qed
  from none some show ?thesis by blast
qed

theorem findBestInterfaceBase_best_qualifying_witness:
  "findBestInterfaceBase letter_host base_target base_case_candidates = Some base_two_early \<and>
   list_ex (qualifies base_target) base_case_candidates \<and>
   base_two_early \<in> set base_case_candidates \<and>
   qualifies base_target base_two_early \<and>
   filter (\<lambda>c. qualifies base_target c \<and> property_count c = property_count base_two_early)
     base_case_candidates = [base_two_upper, base_two_early, base_two_late] \<and>
   first_earliest letter_host [base_two_upper, base_two_early, base_two_late]
     = Some base_two_early \<and>
   collation_order_on letter_host
     (decl_paths letter_host [base_two_upper, base_two_early, base_two_late]) \<and>
   decl_le letter_host base_two_early base_two_upper \<and>
   decl_le letter_host base_two_early base_two_late"
proof -
  note general =
    findBestInterfaceBase_best_qualifying[of letter_host base_target base_case_candidates]
  note found = general[THEN conjunct2, THEN spec, of base_two_early, THEN mp, OF base_case_result]
  have ex: "list_ex (qualifies base_target) base_case_candidates"
    using general[THEN conjunct1] base_case_result by simp
  have r_in: "base_two_early \<in> set base_case_candidates"
    by (rule found[THEN conjunct1])
  have r_q: "qualifies base_target base_two_early"
    by (rule found[THEN conjunct2, THEN conjunct1])
  have first: "first_earliest letter_host [base_two_upper, base_two_early, base_two_late]
                 = Some base_two_early"
    using found[THEN conjunct2, THEN conjunct2, THEN conjunct2, THEN conjunct1]
    unfolding base_case_tied .
  have ord: "collation_order_on letter_host
     (decl_paths letter_host [base_two_upper, base_two_early, base_two_late])"
    by (rule collation_order_on_letter_host)
  have least: "\<forall>c\<in>set (filter (\<lambda>c. qualifies base_target c \<and>
                          property_count c = property_count base_two_early)
                     base_case_candidates). decl_le letter_host base_two_early c"
    using found[THEN conjunct2, THEN conjunct2, THEN conjunct2, THEN conjunct2]
      ord[folded base_case_tied]
    by simp
  have le: "decl_le letter_host base_two_early base_two_upper"
    "decl_le letter_host base_two_early base_two_late"
    using least unfolding base_case_tied by simp_all
  from base_case_result ex r_in r_q base_case_tied first ord le show ?thesis
    by (intro conjI)
qed

text \<open>
  C9. For a target whose shape is not an object shape, or whose property list is empty,
  \<open>findBestInterfaceBase\<close> returns none whatever the candidates are.
\<close>

theorem findBestInterfaceBase_none_without_properties:
  assumes "\<not> is_object_shape (shape target) \<or> shape_properties (shape target) = []"
  shows "findBestInterfaceBase h target infos = None"
  using assms by (cases "shape target") (auto simp: findBestInterfaceBase_def)

theorem findBestInterfaceBase_none_without_properties_witness:
  "\<not> is_object_shape (shape base_other) \<and>
   findBestInterfaceBase sample_host base_other base_candidates = None \<and>
   shape_properties (shape (base_one\<lparr>shape := ObjectShape ''{}'' []\<rparr>)) = [] \<and>
   findBestInterfaceBase sample_host (base_one\<lparr>shape := ObjectShape ''{}'' []\<rparr>) base_candidates = None"
proof -
  have a: "\<not> is_object_shape (shape base_other)"
    by (simp add: base_sample_defs)
  have b: "shape_properties (shape (base_one\<lparr>shape := ObjectShape ''{}'' []\<rparr>)) = []"
    by simp
  show ?thesis
    using a b
      findBestInterfaceBase_none_without_properties[of base_other sample_host base_candidates]
      findBestInterfaceBase_none_without_properties
        [of "base_one\<lparr>shape := ObjectShape ''{}'' []\<rparr>" sample_host base_candidates]
    by simp
qed

section \<open>Shallow descriptions\<close>

text \<open>
  C10. For a symbol with at least one declaration, \<open>describeDeclaration\<close> called with a
  depth limit of at most 1 returns an \<open>OtherShape\<close>: its property list is computed by
  \<open>collectProperties\<close> at a depth limit of at most 0, which is empty.
\<close>

theorem describeDeclaration_shallow_is_other:
  assumes "declarations (symbolAt (opt_checker copts) s) = Some (d # ds)"
    and "opt_depthLimit copts = Some dl" and "dl \<le> 1"
  shows "(\<exists>c. describeDeclaration h s copts = Some (OtherShape c)) \<and>
         collectProperties h (getTypeAtLocation (opt_checker copts) d)
           \<lparr>checker = opt_checker copts, depthLimit = dl - 1,
            normalizeAlias = (case opt_normalizeAlias copts of Some b \<Rightarrow> b | None \<Rightarrow> True),
            fallbackNode = d\<rparr> = []"
  using assms
  by (simp add: describeDeclaration_def Let_def collectProperties_depth_le_0)

theorem describeDeclaration_shallow_is_other_witness:
  "declarations (symbolAt sample_checker 20) = Some [300] \<and>
   getProperties (typeAt sample_checker (getTypeAtLocation sample_checker 300)) = [2, 3] \<and>
   (\<exists>c. describeDeclaration sample_host 20
          \<lparr>opt_checker = sample_checker, opt_depthLimit = Some 1, opt_normalizeAlias = None\<rparr>
        = Some (OtherShape c))"
proof -
  have d: "declarations (symbolAt sample_checker 20) = Some [300]"
    by (simp add: sample_checker_def sample_symbols_def)
  have p: "getProperties (typeAt sample_checker (getTypeAtLocation sample_checker 300)) = [2, 3]"
    by (simp add: sample_checker_def sample_types_def plain_type_def)
  from describeDeclaration_shallow_is_other
        [of "\<lparr>opt_checker = sample_checker, opt_depthLimit = Some 1, opt_normalizeAlias = None\<rparr>"
            20 300 "[]" 1 sample_host] d p
  show ?thesis by simp
qed

section \<open>The declaration index\<close>

lemma getProgramState_cached:
  assumes "cache_built h cache program"
  shows "fst (getProgramState h cache program) = fst (getProgramState h Map.empty program)"
proof (cases "cache (program_id program)")
  case None
  then show ?thesis by (simp add: getProgramState_def Let_def)
next
  case (Some s)
  then show ?thesis using assms
    by (simp add: cache_built_def getProgramState_def)
qed

lemma getProgramState_fresh:
  "fst (getProgramState h Map.empty program) =
     (walk_files h program)
       \<lparr>byCanonical := (\<lambda>key. map_option (sort_by (compareDeclarationInfo h))
                                           (byCanonical (walk_files h program) key)),
        interfaceInfos := sort_by (compareDeclarationInfo h) (interfaceInfos (walk_files h program))\<rparr>"
  by (simp add: getProgramState_def walk_files_def Let_def)

lemma decl_paths_sort_by: "decl_paths h (sort_by cmp xs) = decl_paths h xs"
  by (simp add: decl_paths_def set_sort_by)

lemma slash_path_no_sep: "path_sep h \<notin> set s \<Longrightarrow> slash_path h s = s"
  unfolding slash_path_def by (induction s) auto

lemma uniqueBySymbol_hd: "hd (uniqueBySymbol (x # xs)) = x"
  by (simp add: uniqueBySymbol_def)

text \<open>
  The duplicate-grouping scenario: whatever the order in which the three declarations were
  pushed, the sort leaves them in the order \<open>File1:10\<close>, \<open>File1:50\<close>, \<open>File2:5\<close>.
\<close>

lemma three_declarations_sorted:
  assumes sep: "path_sep h \<notin> set ''File12''"
    and lt: "localeCompare h ''File1'' ''File2'' < 0"
    and gt: "0 < localeCompare h ''File2'' ''File1''"
    and a: "fileName (sourceFile a) = ''File1''" "pos (node a) = 10"
    and b: "fileName (sourceFile b) = ''File2''" "pos (node b) = 5"
    and c: "fileName (sourceFile c) = ''File1''" "pos (node c) = 50"
    and pushed: "mset pushed = {#a, b, c#}"
  shows "sort_by (compareDeclarationInfo h) pushed = [a, c, b]"
proof -
  let ?cmp = "compareDeclarationInfo h"
  let ?R = "\<lambda>x y. ?cmp x y \<le> 0"
  have n1: "normalizePath h ''File1'' = ''File1''" and n2: "normalizePath h ''File2'' = ''File2''"
    using sep by (simp_all add: normalizePath_slash_path slash_path_no_sep)
  have refl: "?R a a" "?R b b" "?R c c"
    by (simp_all add: compareDeclarationInfo_def)
  have le: "?R a c" "?R a b" "?R c b"
    using lt by (simp_all add: compareDeclarationInfo_def a b c n1 n2)
  have nle: "\<not> ?R c a" "\<not> ?R b a" "\<not> ?R b c"
    using gt by (simp_all add: compareDeclarationInfo_def a b c n1 n2)
  have ne: "a \<noteq> b" "a \<noteq> c" "b \<noteq> c"
    using a b c by auto
  have pm: "mset pushed = mset [a, c, b]"
    using pushed by (simp add: add_mset_commute)
  have set_pushed: "set pushed = {a, b, c}"
    using mset_eq_setD[OF pm] by auto
  have total: "\<And>x y. x \<in> {a, b, c} \<Longrightarrow> y \<in> {a, b, c} \<Longrightarrow> ?R x y \<or> ?R y x"
    using refl le by blast
  have trans: "\<And>x y z. x \<in> {a, b, c} \<Longrightarrow> y \<in> {a, b, c} \<Longrightarrow> z \<in> {a, b, c} \<Longrightarrow>
                 ?R x y \<Longrightarrow> ?R y z \<Longrightarrow> ?R x z"
    using refl le nle by blast
  have sub: "set pushed \<subseteq> {a, b, c}"
    using set_pushed by simp
  have s1: "sorted_wrt ?R (sort_by ?cmp pushed)"
    by (rule sorted_sort_by_on[of "{a, b, c}" ?cmp pushed, OF total trans sub])
  have s2: "sorted_wrt ?R [a, c, b]"
    using le by simp
  have d2: "distinct [a, c, b]"
    using ne by auto
  have ms: "mset (sort_by ?cmp pushed) = mset [a, c, b]"
    unfolding mset_sort_by by (rule pm)
  have d1: "distinct (sort_by ?cmp pushed)"
    using d2 ms by (metis mset_eq_imp_distinct_iff)
  have sets: "set (sort_by ?cmp pushed) = set [a, c, b]"
    using ms by (rule mset_eq_setD)
  have anti: "\<And>x y. x \<in> set (sort_by ?cmp pushed) \<Longrightarrow> y \<in> set (sort_by ?cmp pushed) \<Longrightarrow>
                ?R x y \<Longrightarrow> ?R y x \<Longrightarrow> x = y"
    unfolding sets using nle by auto
  show ?thesis
    by (rule sorted_wrt_unique[of "sort_by ?cmp pushed" ?R "[a, c, b]", OF anti s1 s2 d1 d2 sets])
qed

lemma visit_node_recorded:
  assumes "k = InterfaceDeclaration \<or> k = TypeAliasDeclaration"
    and "getSymbolAtLocation ck name_id = Some sy"
    and "describeDeclaration h sy
           \<lparr>opt_checker = ck, opt_depthLimit = None, opt_normalizeAlias = None\<rparr> = Some sh"
  shows "visit_node h ck sf (Node k i (Some name_id) p cs) st =
         visit_nodes h ck sf cs
           (record_declaration k i
              \<lparr>symbol = sy, node = Node k i (Some name_id) p cs, sourceFile = sf, shape = sh\<rparr> st)"
  using assms by (simp add: record_declaration_def Let_def)

lemma interfaceInfos_record_declaration:
  "interfaceInfos (record_declaration k i info st) =
     (if k = InterfaceDeclaration then interfaceInfos st @ [info] else interfaceInfos st)"
  by (cases "shape info") (simp_all add: record_declaration_def Let_def split: option.split)

lemma visit_node_other:
  "\<not> (k = InterfaceDeclaration \<or> k = TypeAliasDeclaration) \<Longrightarrow>
   visit_node h ck sf (Node k i nm p cs) st = visit_nodes h ck sf cs st"
  by simp

lemma visit_node_unnamed:
  "k = InterfaceDeclaration \<or> k = TypeAliasDeclaration \<Longrightarrow>
   visit_node h ck sf (Node k i None p cs) st = st"
  by simp

lemma visit_node_no_symbol:
  "k = InterfaceDeclaration \<or> k = TypeAliasDeclaration \<Longrightarrow>
   getSymbolAtLocation ck name_id = None \<Longrightarrow>
   visit_node h ck sf (Node k i (Some name_id) p cs) st = st"
  by simp

lemma visit_node_no_shape:
  "k = InterfaceDeclaration \<or> k = TypeAliasDeclaration \<Longrightarrow>
   getSymbolAtLocation ck name_id = Some sy \<Longrightarrow>
   describeDeclaration h sy
     \<lparr>opt_checker = ck, opt_depthLimit = None, opt_normalizeAlias = None\<rparr> = None \<Longrightarrow>
   visit_node h ck sf (Node k i (Some name_id) p cs) st = st"
  by simp

lemma visit_interfaces:
  "(\<forall>i\<in>set (interfaceInfos st). kind (node i) = InterfaceDeclaration) \<longrightarrow>
   (\<forall>i\<in>set (interfaceInfos (visit_node h ck sf n st)). kind (node i) = InterfaceDeclaration)"
  "(\<forall>i\<in>set (interfaceInfos st). kind (node i) = InterfaceDeclaration) \<longrightarrow>
   (\<forall>i\<in>set (interfaceInfos (visit_nodes h ck sf ns st)). kind (node i) = InterfaceDeclaration)"
proof (induction h ck sf n st and h ck sf ns st rule: visit_node_visit_nodes.induct)
  case (1 h ck sf k i nm p cs st)
  show ?case
  proof (cases "k = InterfaceDeclaration \<or> k = TypeAliasDeclaration")
    case False
    show ?thesis
      unfolding visit_node_other[OF False] by (rule 1(2)[OF False])
  next
    case True
    show ?thesis
    proof (cases nm)
      case None
      show ?thesis
        unfolding None visit_node_unnamed[OF True] by simp
    next
      case (Some name_id)
      show ?thesis
      proof (cases "getSymbolAtLocation ck name_id")
        case None
        show ?thesis
          unfolding Some visit_node_no_symbol[OF True None] by simp
      next
        case sy: (Some sy)
        show ?thesis
        proof (cases "describeDeclaration h sy
                 \<lparr>opt_checker = ck, opt_depthLimit = None, opt_normalizeAlias = None\<rparr>")
          case None
          show ?thesis
            unfolding Some visit_node_no_shape[OF True sy None] by simp
        next
          case sh: (Some sh)
          define x where
            "x = \<lparr>symbol = sy, node = Node k i nm p cs, sourceFile = sf, shape = sh\<rparr>"
          define xa where "xa = st\<lparr>byNode := (byNode st)(i \<mapsto> x)\<rparr>"
          define xb where
            "xb = (case sh of
                     ObjectShape c ps \<Rightarrow>
                       (case byCanonical xa c of
                          None \<Rightarrow> xa\<lparr>byCanonical := (byCanonical xa)(c \<mapsto> [x])\<rparr>
                        | Some list \<Rightarrow> xa\<lparr>byCanonical := (byCanonical xa)(c \<mapsto> list @ [x])\<rparr>)
                   | OtherShape c \<Rightarrow> xa)"
          define xaa where
            "xaa = (if k = InterfaceDeclaration
                    then xb\<lparr>interfaceInfos := interfaceInfos xb @ [x]\<rparr> else xb)"
          note ih = 1(1)[OF True Some sy sh x_def xa_def xb_def xaa_def]
          have shx: "shape x = sh"
            by (simp add: x_def)
          have rec: "record_declaration k i x st = xaa"
            unfolding record_declaration_def Let_def xaa_def xb_def xa_def shx
            by (rule refl)
          have "visit_node h ck sf (Node k i (Some name_id) p cs) st =
                visit_nodes h ck sf cs
                  (record_declaration k i
                     \<lparr>symbol = sy, node = Node k i (Some name_id) p cs, sourceFile = sf,
                      shape = sh\<rparr> st)"
            by (rule visit_node_recorded[OF True sy sh])
          then have step: "visit_node h ck sf (Node k i nm p cs) st = visit_nodes h ck sf cs xaa"
            unfolding rec[symmetric] x_def Some .
          have infos: "interfaceInfos xaa =
              (if k = InterfaceDeclaration then interfaceInfos st @ [x] else interfaceInfos st)"
            unfolding rec[symmetric] by (rule interfaceInfos_record_declaration)
          have kx: "kind (node x) = k"
            by (simp add: x_def)
          show ?thesis
            unfolding step
          proof (intro impI)
            assume a: "\<forall>i\<in>set (interfaceInfos st). kind (node i) = InterfaceDeclaration"
            have "\<forall>i\<in>set (interfaceInfos xaa). kind (node i) = InterfaceDeclaration"
              unfolding infos using a kx by auto
            with ih show "\<forall>i\<in>set (interfaceInfos (visit_nodes h ck sf cs xaa)).
                            kind (node i) = InterfaceDeclaration"
              by blast
          qed
        qed
      qed
    qed
  qed
next
  case (2 h ck sf st)
  then show ?case by simp
next
  case (3 h ck sf n ns st)
  then show ?case by simp
qed

lemma foldl_files_interfaces:
  "(\<forall>i\<in>set (interfaceInfos st). kind (node i) = InterfaceDeclaration) \<Longrightarrow>
   (\<forall>i\<in>set (interfaceInfos
       (foldl (\<lambda>st sf. if shouldSkipSourceFile h sf then st
                       else visit_nodes h ck sf (file_children sf) st) st sfs)).
      kind (node i) = InterfaceDeclaration)"
proof (induction sfs arbitrary: st)
  case Nil
  then show ?case by simp
next
  case (Cons sf sfs)
  let ?st' = "if shouldSkipSourceFile h sf then st else visit_nodes h ck sf (file_children sf) st"
  have "\<forall>i\<in>set (interfaceInfos ?st'). kind (node i) = InterfaceDeclaration"
    using Cons.prems visit_interfaces(2)[of st h ck sf "file_children sf"] by simp
  from Cons.IH[OF this] show ?case by simp
qed

lemma walk_files_interfaces:
  "\<forall>i\<in>set (interfaceInfos (walk_files h program)). kind (node i) = InterfaceDeclaration"
  unfolding walk_files_def by (rule foldl_files_interfaces) simp

lemma best_step_object:
  assumes "case best of None \<Rightarrow> True | Some b \<Rightarrow> is_object_shape (shape b) \<and> b \<in> A"
    and "c \<in> A"
  shows "case best_step h target tps best c of
           None \<Rightarrow> True | Some b \<Rightarrow> is_object_shape (shape b) \<and> b \<in> A"
  using assms
  by (cases "shape c") (auto simp: best_step_def split: option.splits DeclarationShape.splits)

lemma foldl_best_step_object:
  "(case best of None \<Rightarrow> True | Some b \<Rightarrow> is_object_shape (shape b) \<and> b \<in> A) \<Longrightarrow>
   set cs \<subseteq> A \<Longrightarrow>
   (case foldl (best_step h target tps) best cs of
      None \<Rightarrow> True | Some b \<Rightarrow> is_object_shape (shape b) \<and> b \<in> A)"
proof (induction cs arbitrary: best)
  case Nil
  then show ?case by simp
next
  case (Cons c cs)
  have "case best_step h target tps best c of
          None \<Rightarrow> True | Some b \<Rightarrow> is_object_shape (shape b) \<and> b \<in> A"
    using best_step_object[OF Cons.prems(1)] Cons.prems(2) by simp
  from Cons.IH[OF this] Cons.prems(2) show ?case by simp
qed

lemma findBestInterfaceBase_object:
  "findBestInterfaceBase h target infos = Some r \<Longrightarrow> is_object_shape (shape r) \<and> r \<in> set infos"
proof (cases "shape target")
  case (OtherShape c)
  assume "findBestInterfaceBase h target infos = Some r"
  with OtherShape show ?thesis by (simp add: findBestInterfaceBase_def)
next
  case (ObjectShape c tps)
  assume r: "findBestInterfaceBase h target infos = Some r"
  have "case (None :: DeclarationInfo option) of
          None \<Rightarrow> True | Some b \<Rightarrow> is_object_shape (shape b) \<and> b \<in> set infos"
    by simp
  from foldl_best_step_object[OF this, of infos h target tps] r ObjectShape
  show ?thesis
    by (auto simp: findBestInterfaceBase_def split: if_splits)
qed

lemma cache_built_empty: "cache_built h Map.empty program"
  by (simp add: cache_built_def)

lemma sample_state_base:
  "map_option symbol
     (findBestInterfaceBase sample_host
        (hd (interfaceInfos (fst (getProgramState sample_host Map.empty sample_program))))
        (interfaceInfos (fst (getProgramState sample_host Map.empty sample_program)))) = Some 24"
  by code_simp

lemma case_state_paths:
  "map (fileName \<circ> sourceFile)
     (interfaceInfos (fst (getProgramState letter_host Map.empty case_program))) =
     [''src/a.ts'', ''src/B.ts''] \<and>
   map_option (map (fileName \<circ> sourceFile))
     (byCanonical (fst (getProgramState letter_host Map.empty case_program))
        ''object{id:number,name:string}'') = Some [''src/a.ts'', ''src/B.ts'']"
  by code_simp

text \<open>
  C8 (counterexample). On a host whose collation orders letters without regard to case, the
  program with the files \<open>src/B.ts\<close> and \<open>src/a.ts\<close>, each declaring an interface of the
  same shape at position 10, has its base-candidate list and its bucket in the order
  \<open>src/a.ts\<close>, \<open>src/B.ts\<close>: not ascending by file path, \<open>src/B.ts\<close> being the smaller
  string.
\<close>

theorem getProgramState_not_path_ascending_counterexample:
  "map (fileName \<circ> sourceFile)
     (interfaceInfos (fst (getProgramState letter_host Map.empty case_program))) =
     [''src/a.ts'', ''src/B.ts''] \<and>
   map_option (map (fileName \<circ> sourceFile))
     (byCanonical (fst (getProgramState letter_host Map.empty case_program))
        ''object{id:number,name:string}'') = Some [''src/a.ts'', ''src/B.ts''] \<and>
   ''src/B.ts'' < ''src/a.ts'' \<and>
   \<not> sorted (map (fileName \<circ> sourceFile)
               (interfaceInfos (fst (getProgramState letter_host Map.empty case_program))))"
  by code_simp

text \<open>
  C8 (amended). After \<open>getProgramState\<close> the base-candidate list and every list under
  \<open>byCanonical\<close> are the lists the walk has pushed, sorted (a stable sort) by
  \<open>compareDeclarationInfo\<close>: file path with separators replaced by slashes, compared by the
  host's \<open>localeCompare\<close>, then position. Where \<open>localeCompare\<close> is a strict total order
  on the paths of a list, the list is ascending in the host's declaration order (path in
  that collation, then position), which need not be the order of the path strings. Three
  declarations at \<open>File1:10\<close>, \<open>File2:5\<close>, \<open>File1:50\<close> pushed under one key in any order
  are, on a host that puts \<open>File1\<close> before \<open>File2\<close>, in their bucket in the order
  \<open>File1:10\<close>, \<open>File1:50\<close>, \<open>File2:5\<close>, and the first of the unique records, the original,
  is \<open>File1:10\<close>.
\<close>

theorem getProgramState_sorted:
  assumes cache: "cache_built h cache program"
  shows "interfaceInfos (fst (getProgramState h cache program)) =
           sort_by (compareDeclarationInfo h) (interfaceInfos (walk_files h program)) \<and>
         (\<forall>key. byCanonical (fst (getProgramState h cache program)) key =
                  map_option (sort_by (compareDeclarationInfo h))
                    (byCanonical (walk_files h program) key)) \<and>
         (collation_order_on h
            (decl_paths h (interfaceInfos (fst (getProgramState h cache program)))) \<longrightarrow>
          sorted_wrt (decl_le h) (interfaceInfos (fst (getProgramState h cache program)))) \<and>
         (\<forall>key list. byCanonical (fst (getProgramState h cache program)) key = Some list \<and>
            collation_order_on h (decl_paths h list) \<longrightarrow>
            sorted_wrt (decl_le h) list) \<and>
         (\<forall>key pushed a b c.
            byCanonical (walk_files h program) key = Some pushed \<and>
            mset pushed = {#a, b, c#} \<and>
            path_sep h \<notin> set ''File12'' \<and>
            localeCompare h ''File1'' ''File2'' < 0 \<and> 0 < localeCompare h ''File2'' ''File1'' \<and>
            fileName (sourceFile a) = ''File1'' \<and> pos (node a) = 10 \<and>
            fileName (sourceFile b) = ''File2'' \<and> pos (node b) = 5 \<and>
            fileName (sourceFile c) = ''File1'' \<and> pos (node c) = 50 \<longrightarrow>
            byCanonical (fst (getProgramState h cache program)) key = Some [a, c, b] \<and>
            hd (uniqueBySymbol [a, c, b]) = a)"
proof -
  let ?st = "fst (getProgramState h cache program)"
  let ?w = "walk_files h program"
  have st: "?st = fst (getProgramState h Map.empty program)"
    by (rule getProgramState_cached[OF cache])
  have one: "interfaceInfos ?st = sort_by (compareDeclarationInfo h) (interfaceInfos ?w)"
    unfolding st getProgramState_fresh by simp
  have two: "\<forall>key. byCanonical ?st key =
               map_option (sort_by (compareDeclarationInfo h)) (byCanonical ?w key)"
    unfolding st getProgramState_fresh by simp
  have three: "collation_order_on h (decl_paths h (interfaceInfos ?st)) \<longrightarrow>
               sorted_wrt (decl_le h) (interfaceInfos ?st)"
    unfolding one decl_paths_sort_by using sorted_sort_by_decl[of h "interfaceInfos ?w"]
    by blast
  have four: "\<forall>key list. byCanonical ?st key = Some list \<and>
                collation_order_on h (decl_paths h list) \<longrightarrow> sorted_wrt (decl_le h) list"
  proof (intro allI impI)
    fix key list
    assume pre: "byCanonical ?st key = Some list \<and> collation_order_on h (decl_paths h list)"
    then obtain l0 where l0: "byCanonical ?w key = Some l0"
      and list: "list = sort_by (compareDeclarationInfo h) l0"
      using two by (cases "byCanonical ?w key") auto
    have "collation_order_on h (decl_paths h l0)"
      using pre unfolding list decl_paths_sort_by by simp
    then show "sorted_wrt (decl_le h) list"
      unfolding list by (rule sorted_sort_by_decl)
  qed
  have five: "\<forall>key pushed a b c.
            byCanonical ?w key = Some pushed \<and>
            mset pushed = {#a, b, c#} \<and>
            path_sep h \<notin> set ''File12'' \<and>
            localeCompare h ''File1'' ''File2'' < 0 \<and> 0 < localeCompare h ''File2'' ''File1'' \<and>
            fileName (sourceFile a) = ''File1'' \<and> pos (node a) = 10 \<and>
            fileName (sourceFile b) = ''File2'' \<and> pos (node b) = 5 \<and>
            fileName (sourceFile c) = ''File1'' \<and> pos (node c) = 50 \<longrightarrow>
            byCanonical ?st key = Some [a, c, b] \<and> hd (uniqueBySymbol [a, c, b]) = a"
  proof (intro allI impI)
    fix key pushed and a b c :: DeclarationInfo
    assume pre: "byCanonical ?w key = Some pushed \<and>
            mset pushed = {#a, b, c#} \<and>
            path_sep h \<notin> set ''File12'' \<and>
            localeCompare h ''File1'' ''File2'' < 0 \<and> 0 < localeCompare h ''File2'' ''File1'' \<and>
            fileName (sourceFile a) = ''File1'' \<and> pos (node a) = 10 \<and>
            fileName (sourceFile b) = ''File2'' \<and> pos (node b) = 5 \<and>
            fileName (sourceFile c) = ''File1'' \<and> pos (node c) = 50"
    have srt: "sort_by (compareDeclarationInfo h) pushed = [a, c, b]"
      by (rule three_declarations_sorted[of h a b c pushed]) (use pre in blast)+
    have "byCanonical ?st key = Some (sort_by (compareDeclarationInfo h) pushed)"
      using two pre by simp
    then show "byCanonical ?st key = Some [a, c, b] \<and> hd (uniqueBySymbol [a, c, b]) = a"
      unfolding srt by (simp add: uniqueBySymbol_hd)
  qed
  from one two three four five show ?thesis by (intro conjI)
qed

lemma sample_state_paths:
  "map (\<lambda>i. (fileName (sourceFile i), pos (node i)))
     (interfaceInfos (fst (getProgramState sample_host Map.empty sample_program))) =
   [(''File1'', 10), (''File1'', 50), (''File1'', 80), (''File1'', 90), (''File2'', 5)]"
  by code_simp

lemma sample_walk_bucket:
  "map_option (map (\<lambda>i. (symbol i, fileName (sourceFile i), pos (node i))))
     (byCanonical (walk_files sample_host sample_program) ''object{id:number,name:string}'') =
   Some [(21, ''File2'', 5), (20, ''File1'', 10), (22, ''File1'', 50)]"
  by code_simp

theorem getProgramState_sorted_witness:
  "cache_built sample_host Map.empty sample_program \<and>
   map_option (map (\<lambda>i. (symbol i, fileName (sourceFile i), pos (node i))))
     (byCanonical (walk_files sample_host sample_program) ''object{id:number,name:string}'') =
     Some [(21, ''File2'', 5), (20, ''File1'', 10), (22, ''File1'', 50)] \<and>
   map_option (map (\<lambda>i. (symbol i, fileName (sourceFile i), pos (node i))))
     (byCanonical (fst (getProgramState sample_host Map.empty sample_program))
        ''object{id:number,name:string}'') =
     Some [(20, ''File1'', 10), (22, ''File1'', 50), (21, ''File2'', 5)] \<and>
   map_option (\<lambda>l. symbol (hd (uniqueBySymbol l)))
     (byCanonical (fst (getProgramState sample_host Map.empty sample_program))
        ''object{id:number,name:string}'') = Some 20 \<and>
   interfaceInfos (fst (getProgramState sample_host Map.empty sample_program)) =
     sort_by (compareDeclarationInfo sample_host)
       (interfaceInfos (walk_files sample_host sample_program)) \<and>
   collation_order_on sample_host
     (decl_paths sample_host
        (interfaceInfos (fst (getProgramState sample_host Map.empty sample_program)))) \<and>
   sorted_wrt (decl_le sample_host)
     (interfaceInfos (fst (getProgramState sample_host Map.empty sample_program))) \<and>
   map (\<lambda>i. (fileName (sourceFile i), pos (node i)))
     (interfaceInfos (fst (getProgramState sample_host Map.empty sample_program))) =
     [(''File1'', 10), (''File1'', 50), (''File1'', 80), (''File1'', 90), (''File2'', 5)]"
proof -
  let ?st = "fst (getProgramState sample_host Map.empty sample_program)"
  let ?key = "''object{id:number,name:string}''"
  note general = getProgramState_sorted[OF cache_built_empty, of sample_host sample_program]
  obtain pushed where pushed: "byCanonical (walk_files sample_host sample_program) ?key = Some pushed"
    using sample_walk_bucket by (cases "byCanonical (walk_files sample_host sample_program) ?key") auto
  have facts: "map (\<lambda>i. (symbol i, fileName (sourceFile i), pos (node i))) pushed =
                 [(21, ''File2'', 5), (20, ''File1'', 10), (22, ''File1'', 50)]"
    using sample_walk_bucket unfolding pushed by simp
  then obtain b a c where abc: "pushed = [b, a, c]"
    by (auto simp: map_eq_Cons_conv)
  have pre: "byCanonical (walk_files sample_host sample_program) ?key = Some pushed \<and>
        mset pushed = {#a, b, c#} \<and>
        path_sep sample_host \<notin> set ''File12'' \<and>
        localeCompare sample_host ''File1'' ''File2'' < 0 \<and>
        0 < localeCompare sample_host ''File2'' ''File1'' \<and>
        fileName (sourceFile a) = ''File1'' \<and> pos (node a) = 10 \<and>
        fileName (sourceFile b) = ''File2'' \<and> pos (node b) = 5 \<and>
        fileName (sourceFile c) = ''File1'' \<and> pos (node c) = 50"
    using pushed facts unfolding abc
    by (simp add: sample_host_def code_unit_compare_def)
  have syms: "symbol a = 20" "symbol b = 21" "symbol c = 22"
    using facts unfolding abc by simp_all
  from general[THEN conjunct2, THEN conjunct2, THEN conjunct2, THEN conjunct2,
      THEN spec, THEN spec, THEN spec, THEN spec, THEN spec, THEN mp, OF pre]
  have bucket: "byCanonical ?st ?key = Some [a, c, b]" and orig: "hd (uniqueBySymbol [a, c, b]) = a"
    by simp_all
  have w1: "map_option (map (\<lambda>i. (symbol i, fileName (sourceFile i), pos (node i))))
     (byCanonical ?st ?key) = Some [(20, ''File1'', 10), (22, ''File1'', 50), (21, ''File2'', 5)]"
    unfolding bucket using facts unfolding abc by simp
  have w2: "map_option (\<lambda>l. symbol (hd (uniqueBySymbol l))) (byCanonical ?st ?key) = Some 20"
    unfolding bucket using orig syms by simp
  have ord: "collation_order_on sample_host (decl_paths sample_host (interfaceInfos ?st))"
    by (rule collation_order_on_sample_host)
  have srt: "sorted_wrt (decl_le sample_host) (interfaceInfos ?st)"
    using general[THEN conjunct2, THEN conjunct2, THEN conjunct1] ord by (rule mp)
  have paths: "map (\<lambda>i. (fileName (sourceFile i), pos (node i))) (interfaceInfos ?st) =
     [(''File1'', 10), (''File1'', 50), (''File1'', 80), (''File1'', 90), (''File2'', 5)]"
    by (rule sample_state_paths)
  from cache_built_empty[of sample_host sample_program] sample_walk_bucket w1 w2
    general[THEN conjunct1] ord srt paths
  show ?thesis
    by (intro conjI)
qed

text \<open>
  C7 (counterexample). In the sample program the third record of the base-candidate list is
  the declaration \<open>interface Empty {}\<close>, whose shape is not an object shape.
\<close>

theorem interfaceInfos_other_shape_counterexample:
  "map (is_object_shape \<circ> shape)
     (interfaceInfos (fst (getProgramState sample_host Map.empty sample_program))) =
   [True, True, False, True, True]"
  by code_simp

text \<open>
  C7 (amended). After \<open>getProgramState\<close> every record of the base-candidate list comes from
  an interface declaration, never from a type alias, whatever its shape is; the object shape
  is required by \<open>findBestInterfaceBase\<close>, which returns only records of the list that
  have one.
\<close>

theorem getProgramState_interfaces:
  assumes cache: "cache_built h cache program"
  shows "(\<forall>i\<in>set (interfaceInfos (fst (getProgramState h cache program))).
            kind (node i) = InterfaceDeclaration) \<and>
         (\<forall>target r. findBestInterfaceBase h target
                        (interfaceInfos (fst (getProgramState h cache program))) = Some r \<longrightarrow>
            is_object_shape (shape r) \<and>
            r \<in> set (interfaceInfos (fst (getProgramState h cache program))))"
proof -
  let ?st = "fst (getProgramState h cache program)"
  have st: "?st = fst (getProgramState h Map.empty program)"
    by (rule getProgramState_cached[OF cache])
  have "\<forall>i\<in>set (interfaceInfos ?st). kind (node i) = InterfaceDeclaration"
    unfolding st getProgramState_fresh using walk_files_interfaces[of h program]
    by (simp add: set_sort_by)
  then show ?thesis
    using findBestInterfaceBase_object by blast
qed

theorem getProgramState_interfaces_witness:
  "cache_built sample_host Map.empty sample_program \<and>
   list_all (\<lambda>i. kind (node i) = InterfaceDeclaration)
     (interfaceInfos (fst (getProgramState sample_host Map.empty sample_program))) \<and>
   map symbol (interfaceInfos (fst (getProgramState sample_host Map.empty sample_program))) =
     [20, 22, 23, 24, 21] \<and>
   (case findBestInterfaceBase sample_host
           (hd (interfaceInfos (fst (getProgramState sample_host Map.empty sample_program))))
           (interfaceInfos (fst (getProgramState sample_host Map.empty sample_program))) of
      None \<Rightarrow> False
    | Some r \<Rightarrow> symbol r = 24 \<and> is_object_shape (shape r))"
proof -
  let ?st = "fst (getProgramState sample_host Map.empty sample_program)"
  note general = getProgramState_interfaces[OF cache_built_empty, of sample_host sample_program]
  have kinds: "list_all (\<lambda>i. kind (node i) = InterfaceDeclaration) (interfaceInfos ?st)"
    using general by (simp add: list_all_iff)
  have syms: "map symbol (interfaceInfos ?st) = [20, 22, 23, 24, 21]"
    by code_simp
  have base: "case findBestInterfaceBase sample_host (hd (interfaceInfos ?st)) (interfaceInfos ?st) of
      None \<Rightarrow> False
    | Some r \<Rightarrow> symbol r = 24 \<and> is_object_shape (shape r)"
    using general sample_state_base
    by (cases "findBestInterfaceBase sample_host (hd (interfaceInfos ?st)) (interfaceInfos ?st)")
       auto
  show ?thesis
    using kinds syms base cache_built_empty by (intro conjI)
qed

end
